theory Spec2Isabelle
  imports Main "HOL-Library.AList"
begin

section \<open>Python values and the object store\<close>

text \<open>
  The engine passes dictionaries and lists around by reference: the working state of a
  run, the caller's \<open>initial_state\<close>, a node's \<open>config\<close> and the snapshots of the log
  are objects that may share nested objects. The model therefore keeps the mutable
  objects in an explicit store. A value is a scalar or a reference into the store; the
  store has one address space for dictionaries and one for lists, so an object never
  changes its kind. A dictionary is an association list in insertion order, as Python
  dictionaries are. Floats and user-defined classes are outside the value universe.
\<close>

datatype pyval = VNone | VBool bool | VInt int | VStr string | VList nat | VDict nat

type_synonym pydict = "(string \<times> pyval) list"

record heap =
  dict_objs :: "pydict list"
  list_objs :: "pyval list list"

text \<open>Exceptions of the host language that the engine raises or lets through.
  \<open>Raised\<close> stands for any exception a tool raises on its own.\<close>

datatype exn = KeyError string | ValueError string | TypeError | RecursionError | Raised string

definition dict_at :: "heap \<Rightarrow> nat \<Rightarrow> pydict" where
  "dict_at h a = (if a < length (dict_objs h) then dict_objs h ! a else [])"

definition list_at :: "heap \<Rightarrow> nat \<Rightarrow> pyval list" where
  "list_at h a = (if a < length (list_objs h) then list_objs h ! a else [])"

text \<open>\<open>d.get(key)\<close>: the value bound to the key, \<open>None\<close> when the key is missing.\<close>

definition dict_get :: "heap \<Rightarrow> nat \<Rightarrow> string \<Rightarrow> pyval" where
  "dict_get h a k = (case map_of (dict_at h a) k of None \<Rightarrow> VNone | Some v \<Rightarrow> v)"

text \<open>\<open>dict(d)\<close>: a new dictionary object with the same top-level bindings; the values,
  and so the nested objects, are shared with \<open>d\<close>.\<close>

definition dict_copy :: "heap \<Rightarrow> nat \<Rightarrow> heap \<times> nat" where
  "dict_copy h a = (h\<lparr>dict_objs := dict_objs h @ [dict_at h a]\<rparr>, length (dict_objs h))"

text \<open>\<open>d.update(u)\<close>: every binding of \<open>u\<close>, in order, is stored into the object \<open>d\<close>;
  a key already present keeps its position and gets the new value.\<close>

definition merge_items :: "pydict \<Rightarrow> pydict \<Rightarrow> pydict" where
  "merge_items d u = fold (\<lambda>(k, v). AList.update k v) u d"

definition dict_update :: "heap \<Rightarrow> nat \<Rightarrow> pydict \<Rightarrow> heap" where
  "dict_update h a u = h\<lparr>dict_objs := (dict_objs h)[a := merge_items (dict_at h a) u]\<rparr>"

text \<open>
  \<open>copy.deepcopy\<close> rebuilds, at fresh addresses, every object reachable from its
  argument and keeps the sharing and the cycles among them. The model duplicates the
  whole store behind its end: the object at address \<open>a\<close> gets its duplicate at
  \<open>a + length\<close>, with every reference inside redirected to the duplicate of its target.
  Duplicates of objects the argument does not reach are reachable from no variable of
  the program.
\<close>

definition shift_val :: "nat \<Rightarrow> nat \<Rightarrow> pyval \<Rightarrow> pyval" where
  "shift_val nd nl v = (case v of VList a \<Rightarrow> VList (a + nl) | VDict a \<Rightarrow> VDict (a + nd) | _ \<Rightarrow> v)"

definition shift_dict :: "nat \<Rightarrow> nat \<Rightarrow> pydict \<Rightarrow> pydict" where
  "shift_dict nd nl d = map (\<lambda>(k, v). (k, shift_val nd nl v)) d"

definition duplicate :: "heap \<Rightarrow> heap" where
  "duplicate h =
     (let nd = length (dict_objs h); nl = length (list_objs h)
      in \<lparr>dict_objs = dict_objs h @ map (shift_dict nd nl) (dict_objs h),
          list_objs = list_objs h @ map (map (shift_val nd nl)) (list_objs h)\<rparr>)"

definition deepcopy :: "heap \<Rightarrow> nat \<Rightarrow> heap \<times> nat" where
  "deepcopy h a = (duplicate h, a + length (dict_objs h))"

section \<open>Comparison of Python values\<close>

text \<open>
  The rich comparisons of the built-in types: \<open>bool\<close> is a subtype of \<open>int\<close>; strings
  are ordered by code point; lists are compared element by element, dictionaries are
  equal when they hold equal values under the same keys and are not ordered; equality
  across unrelated types is \<open>False\<close>, ordering across them raises \<open>TypeError\<close>. The
  comparison of nested containers recurses, and Python gives up with \<open>RecursionError\<close>
  at its recursion limit; the first argument is the depth still available.
\<close>

datatype ordop = Gt | Ge | Lt | Le

fun ord_int :: "ordop \<Rightarrow> int \<Rightarrow> int \<Rightarrow> bool" where
  "ord_int Gt a b = (a > b)"
| "ord_int Ge a b = (a \<ge> b)"
| "ord_int Lt a b = (a < b)"
| "ord_int Le a b = (a \<le> b)"

fun str_cmp :: "string \<Rightarrow> string \<Rightarrow> int" where
  "str_cmp [] [] = 0"
| "str_cmp [] (y # ys) = - 1"
| "str_cmp (x # xs) [] = 1"
| "str_cmp (x # xs) (y # ys) =
     (if (of_char x :: nat) < of_char y then - 1
      else if (of_char y :: nat) < of_char x then 1
      else str_cmp xs ys)"

definition num_of :: "pyval \<Rightarrow> int option" where
  "num_of v = (case v of VBool b \<Rightarrow> Some (if b then 1 else 0) | VInt i \<Rightarrow> Some i | _ \<Rightarrow> None)"

fun all_ok :: "('a \<Rightarrow> exn + bool) \<Rightarrow> 'a list \<Rightarrow> exn + bool" where
  "all_ok f [] = Inr True"
| "all_ok f (x # xs) =
     (case f x of Inl e \<Rightarrow> Inl e
      | Inr b \<Rightarrow> if b then all_ok f xs else Inr False)"

fun first_diff :: "('a \<Rightarrow> 'a \<Rightarrow> exn + bool) \<Rightarrow> 'a list \<Rightarrow> 'a list \<Rightarrow> exn + ('a \<times> 'a) option" where
  "first_diff eq (x # xs) (y # ys) =
     (case eq x y of Inl e \<Rightarrow> Inl e
      | Inr b \<Rightarrow> if b then first_diff eq xs ys else Inr (Some (x, y)))"
| "first_diff eq xs ys = Inr None"

fun py_eq :: "nat \<Rightarrow> heap \<Rightarrow> pyval \<Rightarrow> pyval \<Rightarrow> exn + bool" where
  "py_eq d h (VList p) (VList q) =
     (if p = q then Inr True
      else if length (list_at h p) \<noteq> length (list_at h q) then Inr False
      else all_ok (\<lambda>(x, y). case d of 0 \<Rightarrow> Inl RecursionError | Suc d' \<Rightarrow> py_eq d' h x y)
             (zip (list_at h p) (list_at h q)))"
| "py_eq d h (VDict p) (VDict q) =
     (if p = q then Inr True
      else if length (dict_at h p) \<noteq> length (dict_at h q) then Inr False
      else all_ok (\<lambda>(k, x). case map_of (dict_at h q) k of
                     None \<Rightarrow> Inr False
                   | Some y \<Rightarrow> (case d of 0 \<Rightarrow> Inl RecursionError | Suc d' \<Rightarrow> py_eq d' h x y))
             (dict_at h p))"
| "py_eq d h (VStr s) b = Inr (b = VStr s)"
| "py_eq d h VNone b = Inr (b = VNone)"
| "py_eq d h a b =
     (case (num_of a, num_of b) of (Some i, Some j) \<Rightarrow> Inr (i = j) | _ \<Rightarrow> Inr False)"

fun py_ord :: "ordop \<Rightarrow> nat \<Rightarrow> heap \<Rightarrow> pyval \<Rightarrow> pyval \<Rightarrow> exn + bool" where
  "py_ord opr d h (VList p) (VList q) =
     (case first_diff (\<lambda>x y. case d of 0 \<Rightarrow> Inl RecursionError | Suc d' \<Rightarrow> py_eq d' h x y)
             (list_at h p) (list_at h q) of
        Inl e \<Rightarrow> Inl e
      | Inr None \<Rightarrow> Inr (ord_int opr (int (length (list_at h p))) (int (length (list_at h q))))
      | Inr (Some (x, y)) \<Rightarrow>
          (case d of 0 \<Rightarrow> Inl RecursionError | Suc d' \<Rightarrow> py_ord opr d' h x y))"
| "py_ord opr d h (VStr s) (VStr t) = Inr (ord_int opr (str_cmp s t) 0)"
| "py_ord opr d h a b =
     (case (num_of a, num_of b) of (Some i, Some j) \<Rightarrow> Inr (ord_int opr i j) | _ \<Rightarrow> Inl TypeError)"

definition recursion_limit :: nat where
  "recursion_limit = 1000"

definition py_gt :: "heap \<Rightarrow> pyval \<Rightarrow> pyval \<Rightarrow> exn + bool" where
  "py_gt h a b = py_ord Gt recursion_limit h a b"

definition py_ge :: "heap \<Rightarrow> pyval \<Rightarrow> pyval \<Rightarrow> exn + bool" where
  "py_ge h a b = py_ord Ge recursion_limit h a b"

definition py_lt :: "heap \<Rightarrow> pyval \<Rightarrow> pyval \<Rightarrow> exn + bool" where
  "py_lt h a b = py_ord Lt recursion_limit h a b"

definition py_le :: "heap \<Rightarrow> pyval \<Rightarrow> pyval \<Rightarrow> exn + bool" where
  "py_le h a b = py_ord Le recursion_limit h a b"

definition py_equal :: "heap \<Rightarrow> pyval \<Rightarrow> pyval \<Rightarrow> exn + bool" where
  "py_equal h a b = py_eq recursion_limit h a b"

definition py_ne :: "heap \<Rightarrow> pyval \<Rightarrow> pyval \<Rightarrow> exn + bool" where
  "py_ne h a b = (case py_eq recursion_limit h a b of Inl e \<Rightarrow> Inl e | Inr r \<Rightarrow> Inr (\<not> r))"

section \<open>The engine's data model\<close>

text \<open>
  A tool is a Python callable \<open>tool(state, config)\<close>. It receives the two dictionary
  objects by reference, may read and change whatever it reaches in the store, and
  either raises or returns \<open>None\<close> or a dictionary of updates. Only the bindings of the
  returned dictionary are used by the engine, so the model takes them by value.
\<close>

type_synonym tool = "heap \<Rightarrow> nat \<Rightarrow> nat \<Rightarrow> (exn + pydict option) \<times> heap"

record node =
  node_ident :: string
  node_tool :: string
  node_config :: nat

record edge =
  from_node :: string
  to_node :: "string option"
  condition_key :: "string option"
  condition_op :: "string option"
  condition_value :: pyval
  true_target :: "string option"
  false_target :: "string option"

record graph =
  graph_ident :: string
  graph_name :: string
  start_node :: string
  nodes :: "string \<rightharpoonup> node"
  edges :: "string \<rightharpoonup> edge"

datatype run_status = Running | Completed | Failed

record step_log =
  step_index :: int
  node_id :: string
  tool :: string
  state_snapshot :: nat

record run =
  run_ident :: string
  graph_id :: string
  status :: run_status
  current_node :: "string option"
  state :: nat
  log :: "step_log list"

subsection \<open>ToolRegistry\<close>

type_synonym registry = "(string \<times> tool) list"

definition quoted :: "string \<Rightarrow> string" where
  "quoted s = [CHR 0x27] @ s @ [CHR 0x27]"

definition register :: "registry \<Rightarrow> string \<Rightarrow> tool \<Rightarrow> registry" where
  "register reg name func = AList.update name func reg"

definition get :: "registry \<Rightarrow> string \<Rightarrow> exn + tool" where
  "get reg name =
     (case map_of reg name of
        None \<Rightarrow> Inl (KeyError (''Tool '' @ quoted name @ '' is not registered.''))
      | Some func \<Rightarrow> Inr func)"

definition list_tools :: "registry \<Rightarrow> string list" where
  "list_tools reg = map fst reg"

subsection \<open>GraphEngine\<close>

record engine =
  tool_registry :: registry
  graphs :: "string \<rightharpoonup> graph"
  runs :: "string \<rightharpoonup> run"

text \<open>\<open>create_graph\<close>; the identifier drawn by \<open>uuid4\<close> is an argument of the model.\<close>

definition create_graph ::
  "engine \<Rightarrow> string \<Rightarrow> string \<Rightarrow> string \<Rightarrow> node list \<Rightarrow> edge list \<Rightarrow> string \<times> engine" where
  "create_graph eng uuid name start nodes_cfg edges_cfg =
     (let ns = fold (\<lambda>nc m. m(node_ident nc \<mapsto> nc)) nodes_cfg Map.empty;
          es = fold (\<lambda>ec m. m(from_node ec \<mapsto> ec)) edges_cfg Map.empty;
          g = \<lparr>graph_ident = uuid, graph_name = name, start_node = start, nodes = ns, edges = es\<rparr>
      in (uuid, eng\<lparr>graphs := (graphs eng)(uuid \<mapsto> g)\<rparr>))"

definition get_graph :: "engine \<Rightarrow> string \<Rightarrow> exn + graph" where
  "get_graph eng gid =
     (case graphs eng gid of
        None \<Rightarrow> Inl (KeyError (''Graph '' @ quoted gid @ '' not found.''))
      | Some g \<Rightarrow> Inr g)"

definition compare :: "heap \<Rightarrow> pyval \<Rightarrow> string \<Rightarrow> pyval \<Rightarrow> exn + bool" where
  "compare h lhs opr rhs =
     (if opr = ''gt'' then py_gt h lhs rhs
      else if opr = ''ge'' then py_ge h lhs rhs
      else if opr = ''lt'' then py_lt h lhs rhs
      else if opr = ''le'' then py_le h lhs rhs
      else if opr = ''eq'' then py_equal h lhs rhs
      else if opr = ''ne'' then py_ne h lhs rhs
      else Inl (ValueError (''Unsupported operator '' @ quoted opr @ ''.'')))"

text \<open>\<open>_next_node_id\<close>; the state is the dictionary object at address \<open>st\<close>.\<close>

definition next_node_id :: "graph \<Rightarrow> string \<Rightarrow> heap \<Rightarrow> nat \<Rightarrow> exn + string option" where
  "next_node_id g current_node_id h st =
     (case edges g current_node_id of
        None \<Rightarrow> Inr None
      | Some e \<Rightarrow>
          (case condition_key e of
             None \<Rightarrow> Inr (to_node e)
           | Some key \<Rightarrow>
               (case condition_op e of
                  None \<Rightarrow> Inr (to_node e)
                | Some opr \<Rightarrow>
                    (case compare h (dict_get h st key) opr (condition_value e) of
                       Inl err \<Rightarrow> Inl err
                     | Inr result \<Rightarrow> Inr (if result then true_target e else false_target e)))))"

text \<open>
  The step loop of \<open>run_graph\<close>, one equation per way the \<open>for ... else\<close> ends: the
  list holds the step indices still to come, and the empty list is the \<open>else\<close> branch
  of the loop (budget exhausted). An exception leaves the loop with the store as it is
  at that point.
\<close>

fun run_loop ::
  "graph \<Rightarrow> registry \<Rightarrow> nat \<Rightarrow> int list \<Rightarrow> heap \<Rightarrow> string option \<Rightarrow> step_log list \<Rightarrow>
     (exn + run_status \<times> string option \<times> step_log list) \<times> heap" where
  "run_loop g reg st [] h cur logs = (Inr (Failed, cur, logs), h)"
| "run_loop g reg st (i # rest) h cur logs =
     (case cur of
        None \<Rightarrow> (Inr (Completed, None, logs), h)
      | Some c \<Rightarrow>
          (case nodes g c of
             None \<Rightarrow> (Inr (Failed, Some c, logs), h)
           | Some n \<Rightarrow>
               (case get reg (node_tool n) of
                  Inl err \<Rightarrow> (Inl err, h)
                | Inr f \<Rightarrow>
                    (case f h st (node_config n) of
                       (Inl err, h1) \<Rightarrow> (Inl err, h1)
                     | (Inr r, h1) \<Rightarrow>
                         (let updates = (case r of None \<Rightarrow> [] | Some u \<Rightarrow> u);
                              h2 = dict_update h1 st updates;
                              (h3, snap) = deepcopy h2 st;
                              logs' = logs @ [\<lparr>step_index = i, node_id = node_ident n,
                                               tool = node_tool n, state_snapshot = snap\<rparr>]
                          in (case next_node_id g c h3 st of
                                Inl err \<Rightarrow> (Inl err, h3)
                              | Inr nxt \<Rightarrow> run_loop g reg st rest h3 nxt logs'))))))"

text \<open>\<open>run_graph\<close>: \<open>uuid\<close> is the identifier drawn by \<open>uuid4\<close>, \<open>initial_state\<close> the
  address of the caller's dictionary. The result is the raised exception or the
  returned \<open>Run\<close>, with the engine and the store as the call leaves them.\<close>

definition run_graph ::
  "engine \<Rightarrow> heap \<Rightarrow> string \<Rightarrow> string \<Rightarrow> nat \<Rightarrow> int \<Rightarrow> (exn + run) \<times> engine \<times> heap" where
  "run_graph eng h uuid gid initial_state max_steps =
     (case get_graph eng gid of
        Inl err \<Rightarrow> (Inl err, eng, h)
      | Inr g \<Rightarrow>
          (let (h0, st) = dict_copy h initial_state
           in (case run_loop g (tool_registry eng) st (map int [0..<nat max_steps]) h0
                       (Some (start_node g)) [] of
                 (Inl err, h') \<Rightarrow> (Inl err, eng, h')
               | (Inr (stat, cur, logs), h') \<Rightarrow>
                   (let r = \<lparr>run_ident = uuid, graph_id = gid, status = stat,
                             current_node = cur, state = st, log = logs\<rparr>
                    in (Inr r, eng\<lparr>runs := (runs eng)(uuid \<mapsto> r)\<rparr>, h')))))"

definition get_run :: "engine \<Rightarrow> string \<Rightarrow> exn + run" where
  "get_run eng rid =
     (case runs eng rid of
        None \<Rightarrow> Inl (KeyError (''Run '' @ quoted rid @ '' not found.''))
      | Some r \<Rightarrow> Inr r)"

section \<open>Paths through a graph\<close>

text \<open>The store one loop iteration leaves behind, once the tool has returned \<open>r\<close> in
  the store \<open>h1\<close>: the updates are merged into the state and the state is snapshot.\<close>

definition store_after_step :: "heap \<Rightarrow> nat \<Rightarrow> pydict option \<Rightarrow> heap" where
  "store_after_step h1 st r =
     fst (deepcopy (dict_update h1 st (case r of None \<Rightarrow> [] | Some u \<Rightarrow> u)) st)"

text \<open>
  \<open>node_ok I g reg st a\<close>: the node \<open>a\<close> is in the node map, its tool resolves in the
  registry and, called in any store that satisfies \<open>I\<close>, the tool returns without raising
  and the store after the step satisfies \<open>I\<close> again. \<open>I\<close> describes the stores a run
  goes through, for instance the value of the key a guard reads.\<close>

definition node_ok :: "(heap \<Rightarrow> bool) \<Rightarrow> graph \<Rightarrow> registry \<Rightarrow> nat \<Rightarrow> string \<Rightarrow> bool" where
  "node_ok I g reg st a =
     (\<exists>n f. nodes g a = Some n \<and> get reg (node_tool n) = Inr f \<and>
        (\<forall>h. I h \<longrightarrow> (\<exists>r h1. f h st (node_config n) = (Inr r, h1) \<and> I (store_after_step h1 st r))))"

text \<open>\<open>routes I g st a nxt\<close>: in every store that satisfies \<open>I\<close> the resolver sends
  \<open>a\<close> to \<open>nxt\<close>.\<close>

definition routes :: "(heap \<Rightarrow> bool) \<Rightarrow> graph \<Rightarrow> nat \<Rightarrow> string \<Rightarrow> string option \<Rightarrow> bool" where
  "routes I g st a nxt = (\<forall>h. I h \<longrightarrow> next_node_id g a h st = Inr nxt)"

text \<open>\<open>walk I g reg st ns nxt\<close>: the nodes \<open>ns\<close> are executed one after the other, each
  routed to the next one, and the last one is routed to \<open>nxt\<close>.\<close>

fun walk :: "(heap \<Rightarrow> bool) \<Rightarrow> graph \<Rightarrow> registry \<Rightarrow> nat \<Rightarrow> string list \<Rightarrow> string option \<Rightarrow> bool" where
  "walk I g reg st [] nxt = False"
| "walk I g reg st [a] nxt = (node_ok I g reg st a \<and> routes I g st a nxt)"
| "walk I g reg st (a # b # ns) nxt =
     (node_ok I g reg st a \<and> routes I g st a (Some b) \<and> walk I g reg st (b # ns) nxt)"

text \<open>A pure linear chain: every node but the last has an unconditional edge to its
  successor, and the last has no edge or an unconditional edge to nothing.\<close>

definition linear_edge :: "graph \<Rightarrow> string \<Rightarrow> string option \<Rightarrow> bool" where
  "linear_edge g a nxt =
     (case edges g a of
        None \<Rightarrow> nxt = None
      | Some e \<Rightarrow> (condition_key e = None \<or> condition_op e = None) \<and> to_node e = nxt)"

fun chain :: "graph \<Rightarrow> string list \<Rightarrow> bool" where
  "chain g [] = False"
| "chain g [a] = linear_edge g a None"
| "chain g (a # b # ns) = (linear_edge g a (Some b) \<and> chain g (b # ns))"

section \<open>Footprints in the store\<close>

text \<open>
  What a piece of code can reach decides what it can change. A reference is allocated
  when its address is in the store; the contents of a reference are the bindings of the
  dictionary or the elements of the list it points to, and its successors are the
  values held there.
\<close>

definition is_ref :: "pyval \<Rightarrow> bool" where
  "is_ref v = (case v of VList a \<Rightarrow> True | VDict a \<Rightarrow> True | _ \<Rightarrow> False)"

definition allocated :: "heap \<Rightarrow> pyval \<Rightarrow> bool" where
  "allocated h v =
     (case v of VList a \<Rightarrow> a < length (list_objs h) | VDict a \<Rightarrow> a < length (dict_objs h) | _ \<Rightarrow> False)"

definition contents :: "heap \<Rightarrow> pyval \<Rightarrow> pydict + pyval list" where
  "contents h v =
     (case v of VList a \<Rightarrow> Inr (list_at h a) | VDict a \<Rightarrow> Inl (dict_at h a) | _ \<Rightarrow> Inr [])"

definition succs :: "heap \<Rightarrow> pyval \<Rightarrow> pyval set" where
  "succs h v = (case contents h v of Inl d \<Rightarrow> snd ` set d | Inr l \<Rightarrow> set l)"

text \<open>A footprint is a set of allocated references that is closed under successors:
  whatever is reachable from a member is a member.\<close>

definition footprint :: "heap \<Rightarrow> pyval set \<Rightarrow> bool" where
  "footprint h X = (\<forall>v\<in>X. allocated h v \<and> (\<forall>w\<in>succs h v. is_ref w \<longrightarrow> w \<in> X))"

text \<open>The references a step allocates.\<close>

definition fresh :: "heap \<Rightarrow> heap \<Rightarrow> pyval set" where
  "fresh h h' = {v. allocated h' v \<and> \<not> allocated h v}"

text \<open>
  The contract of a tool with the memory: called with a state and a configuration that
  lie in a footprint \<open>X\<close>, the tool deallocates nothing, changes no allocated object
  outside \<open>X\<close>, and leaves \<open>X\<close> together with the objects it allocated as a footprint
  that holds every reference it returns. This is what a Python callable does that
  reaches the store only through its two arguments.
\<close>

definition tool_safe :: "tool \<Rightarrow> bool" where
  "tool_safe f =
     (\<forall>h st cfg X res h'.
        footprint h X \<and> VDict st \<in> X \<and> VDict cfg \<in> X \<and> f h st cfg = (res, h') \<longrightarrow>
          length (dict_objs h) \<le> length (dict_objs h') \<and> length (list_objs h) \<le> length (list_objs h') \<and>
          (\<forall>v. allocated h v \<and> v \<notin> X \<longrightarrow> contents h' v = contents h v) \<and>
          footprint h' (X \<union> fresh h h') \<and>
          (\<forall>u. res = Inr (Some u) \<longrightarrow> (\<forall>w\<in>snd ` set u. is_ref w \<longrightarrow> w \<in> X \<union> fresh h h')))"

text \<open>Every tool a node of the graph resolves to keeps the contract.\<close>

definition tools_safe :: "graph \<Rightarrow> registry \<Rightarrow> bool" where
  "tools_safe g reg =
     (\<forall>c n f. nodes g c = Some n \<and> get reg (node_tool n) = Inr f \<longrightarrow> tool_safe f)"

text \<open>The invariant of the step loop: the working state and the configurations of the
  nodes lie in a footprint.\<close>

definition loop_inv :: "graph \<Rightarrow> nat \<Rightarrow> heap \<Rightarrow> pyval set \<Rightarrow> bool" where
  "loop_inv g st h X =
     (footprint h X \<and> VDict st \<in> X \<and> (\<forall>c n. nodes g c = Some n \<longrightarrow> VDict (node_config n) \<in> X))"

text \<open>The value a reference stands for, unfolded to a tree down to a given depth; two
  references stand for the same value when their trees agree at every depth.\<close>

datatype pytree = TNone | TBool bool | TInt int | TStr string
  | TList "pytree list" | TDict "(string \<times> pytree) list" | TDeeper

fun view :: "nat \<Rightarrow> heap \<Rightarrow> pyval \<Rightarrow> pytree" where
  "view d h VNone = TNone"
| "view d h (VBool b) = TBool b"
| "view d h (VInt i) = TInt i"
| "view d h (VStr s) = TStr s"
| "view 0 h (VList a) = TDeeper"
| "view 0 h (VDict a) = TDeeper"
| "view (Suc d) h (VList a) = TList (map (view d h) (list_at h a))"
| "view (Suc d) h (VDict a) = TDict (map (\<lambda>(k, v). (k, view d h v)) (dict_at h a))"

section \<open>Example objects\<close>

text \<open>Two tools in the shape of those of \<open>tools.py\<close>: they leave the store alone and
  return their updates; the first returns no updates, the second binds a counter.\<close>

definition idle_tool :: tool where
  "idle_tool h st cfg = (Inr None, h)"

definition count_tool :: tool where
  "count_tool h st cfg =
     (Inr (Some [(''count'', VInt (case dict_get h st ''count'' of VInt i \<Rightarrow> i + 1 | _ \<Rightarrow> 1))]), h)"

text \<open>A tool that raises, and small graphs: a guarded self-loop, a chain of two nodes,
  an edge to a node that does not exist, a node whose tool raises.\<close>

definition crash_tool :: tool where
  "crash_tool h st cfg = (Inl (Raised ''boom''), h)"

text \<open>A tool that changes a nested object in place: it appends to the list bound to
  \<open>items\<close> in the state and returns no updates.\<close>

definition append_tool :: tool where
  "append_tool h st cfg =
     (case dict_get h st ''items'' of
        VList a \<Rightarrow> (Inr None, h\<lparr>list_objs := (list_objs h)[a := list_at h a @ [VInt 1]]\<rparr>)
      | _ \<Rightarrow> (Inl (Raised ''items is not a list''), h))"

text \<open>A caller's dictionary that holds itself, and a tool that writes through that
  reference: \<open>state["me"]["seen"] = True\<close>.\<close>

definition alias_tool :: tool where
  "alias_tool h st cfg =
     (case dict_get h st ''me'' of
        VDict a \<Rightarrow> (Inr None, dict_update h a [(''seen'', VBool True)])
      | _ \<Rightarrow> (Inr None, h))"

definition plain_edge :: "string \<Rightarrow> string \<Rightarrow> edge" where
  "plain_edge a b = \<lparr>from_node = a, to_node = Some b, condition_key = None,
     condition_op = None, condition_value = VNone, true_target = None, false_target = None\<rparr>"

text \<open>The loop of the summarization workflow of \<open>workflows.py\<close>: \<open>evaluate\<close> goes to
  \<open>refine\<close> while \<open>summary_length > 80\<close> and ends otherwise, \<open>refine\<close> goes back to
  \<open>evaluate\<close>.\<close>

definition refine_edge :: edge where
  "refine_edge = \<lparr>from_node = ''refine'', to_node = Some ''evaluate'', condition_key = None,
     condition_op = None, condition_value = VNone, true_target = None, false_target = None\<rparr>"

definition evaluate_edge :: edge where
  "evaluate_edge = \<lparr>from_node = ''evaluate'', to_node = None,
     condition_key = Some ''summary_length'', condition_op = Some ''gt'',
     condition_value = VInt 80, true_target = Some ''refine'', false_target = None\<rparr>"

definition refine_graph :: graph where
  "refine_graph = \<lparr>graph_ident = ''refine'', graph_name = ''summarization_and_refinement'',
     start_node = ''evaluate'',
     nodes = [''evaluate'' \<mapsto> \<lparr>node_ident = ''evaluate'', node_tool = ''evaluate_summary'', node_config = 0\<rparr>,
              ''refine'' \<mapsto> \<lparr>node_ident = ''refine'', node_tool = ''refine_summary'', node_config = 1\<rparr>],
     edges = [''evaluate'' \<mapsto> evaluate_edge, ''refine'' \<mapsto> refine_edge]\<rparr>"

definition refine_heap :: heap where
  "refine_heap = \<lparr>dict_objs = [[], [(''max_summary_words'', VInt 80)], [(''summary_length'', VInt 95)]],
     list_objs = []\<rparr>"

definition broken_graph :: graph where
  "broken_graph =
     refine_graph\<lparr>edges := [''evaluate'' \<mapsto> evaluate_edge\<lparr>condition_op := Some ''between''\<rparr>]\<rparr>"

definition loop_graph :: graph where
  "loop_graph = \<lparr>graph_ident = ''loop'', graph_name = ''loop'', start_node = ''a'',
     nodes = [''a'' \<mapsto> \<lparr>node_ident = ''a'', node_tool = ''count'', node_config = 0\<rparr>],
     edges = [''a'' \<mapsto> \<lparr>from_node = ''a'', to_node = None, condition_key = Some ''limit'',
                condition_op = Some ''gt'', condition_value = VInt 0,
                true_target = Some ''a'', false_target = None\<rparr>]\<rparr>"

definition line_graph :: graph where
  "line_graph = \<lparr>graph_ident = ''line'', graph_name = ''line'', start_node = ''a'',
     nodes = [''a'' \<mapsto> \<lparr>node_ident = ''a'', node_tool = ''count'', node_config = 0\<rparr>,
              ''b'' \<mapsto> \<lparr>node_ident = ''b'', node_tool = ''idle'', node_config = 0\<rparr>],
     edges = [''a'' \<mapsto> plain_edge ''a'' ''b'']\<rparr>"

definition dangling_graph :: graph where
  "dangling_graph = \<lparr>graph_ident = ''dangling'', graph_name = ''dangling'', start_node = ''a'',
     nodes = [''a'' \<mapsto> \<lparr>node_ident = ''a'', node_tool = ''idle'', node_config = 0\<rparr>],
     edges = [''a'' \<mapsto> plain_edge ''a'' ''ghost'']\<rparr>"

definition crash_graph :: graph where
  "crash_graph = \<lparr>graph_ident = ''crash'', graph_name = ''crash'', start_node = ''a'',
     nodes = [''a'' \<mapsto> \<lparr>node_ident = ''a'', node_tool = ''crash'', node_config = 0\<rparr>],
     edges = Map.empty\<rparr>"

definition example_engine :: engine where
  "example_engine = \<lparr>tool_registry = [(''idle'', idle_tool), (''count'', count_tool), (''crash'', crash_tool)],
     graphs = [''loop'' \<mapsto> loop_graph, ''line'' \<mapsto> line_graph, ''dangling'' \<mapsto> dangling_graph,
               ''crash'' \<mapsto> crash_graph, ''refine'' \<mapsto> refine_graph],
     runs = Map.empty\<rparr>"

definition example_heap :: heap where
  "example_heap = \<lparr>dict_objs = [[], [(''limit'', VInt 5)]], list_objs = []\<rparr>"

definition items_graph :: graph where
  "items_graph = \<lparr>graph_ident = ''items'', graph_name = ''items'', start_node = ''a'',
     nodes = [''a'' \<mapsto> \<lparr>node_ident = ''a'', node_tool = ''append'', node_config = 0\<rparr>],
     edges = [''a'' \<mapsto> plain_edge ''a'' ''a'']\<rparr>"

definition items_engine :: engine where
  "items_engine = \<lparr>tool_registry = [(''append'', append_tool)],
     graphs = [''items'' \<mapsto> items_graph], runs = Map.empty\<rparr>"

definition items_heap :: heap where
  "items_heap = \<lparr>dict_objs = [[], [(''items'', VList 0)]], list_objs = [[]]\<rparr>"

definition alias_graph :: graph where
  "alias_graph = \<lparr>graph_ident = ''alias'', graph_name = ''alias'', start_node = ''a'',
     nodes = [''a'' \<mapsto> \<lparr>node_ident = ''a'', node_tool = ''alias'', node_config = 0\<rparr>],
     edges = Map.empty\<rparr>"

definition alias_engine :: engine where
  "alias_engine = \<lparr>tool_registry = [(''alias'', alias_tool)],
     graphs = [''alias'' \<mapsto> alias_graph], runs = Map.empty\<rparr>"

definition alias_heap :: heap where
  "alias_heap = \<lparr>dict_objs = [[], [(''me'', VDict 1)]], list_objs = []\<rparr>"

section \<open>Properties of the registry and the resolver\<close>

subsection \<open>ToolRegistry: last write wins\<close>

text \<open>
  C9. After \<open>register(n, f)\<close> followed by \<open>register(n, g)\<close>, \<open>get(n)\<close> returns \<open>g\<close>, and
  the lookup of any other name is what it was before; \<open>get(n)\<close> on a name that is not
  registered raises \<open>KeyError\<close> with the message \<open>Tool 'n' is not registered.\<close>
\<close>

theorem registry_last_write_wins:
  "get (register (register reg n f) n g) n = Inr g \<and>
   (m \<noteq> n \<longrightarrow> get (register (register reg n f) n g) m = get reg m) \<and>
   (n \<notin> set (list_tools reg) \<longrightarrow>
      get reg n = Inl (KeyError (''Tool '' @ [CHR 0x27] @ n @ [CHR 0x27] @ '' is not registered.'')))"
proof (intro conjI impI)
  show "get (register (register reg n f) n g) n = Inr g"
    by (simp add: get_def register_def update_conv')
  show "get (register (register reg n f) n g) m = get reg m" if "m \<noteq> n"
    using that by (simp add: get_def register_def update_conv')
  show "get reg n = Inl (KeyError (''Tool '' @ [CHR 0x27] @ n @ [CHR 0x27] @ '' is not registered.''))"
    if "n \<notin> set (list_tools reg)"
  proof -
    from that have "map_of reg n = None"
      by (simp add: list_tools_def map_of_eq_None_iff)
    then show ?thesis by (simp add: get_def quoted_def)
  qed
qed

theorem registry_last_write_wins_witness:
  "get (register (register [] ''t'' idle_tool) ''t'' count_tool) ''t'' = Inr count_tool \<and>
   get (register (register [] ''t'' idle_tool) ''t'' count_tool) ''u'' = get [] ''u'' \<and>
   get [] ''t'' = Inl (KeyError ''Tool 't' is not registered.'')"
  using registry_last_write_wins [of "[]" "''t''" idle_tool count_tool "''u''"]
  by (simp add: list_tools_def)

subsection \<open>The transition resolver\<close>

text \<open>
  C2. \<open>_next_node_id\<close> returns no next node when no edge is keyed by the current node
  id; it returns the edge's \<open>to_node\<close> when the edge has no condition (its key or its
  operator is \<open>None\<close>); on a conditional edge it reads \<open>state.get(condition_key)\<close>, which
  is \<open>None\<close> for a missing key, and returns \<open>true_target\<close> when the comparison with
  \<open>condition_value\<close> holds and \<open>false_target\<close> when it does not; an exception of the
  comparison is raised, and an operator outside the six names raises \<open>ValueError\<close>. The
  six names stand for \<open>>\<close>, \<open>>=\<close>, \<open><\<close>, \<open><=\<close>, \<open>==\<close>, \<open>!=\<close> of the host language, shown
  here on integers.
\<close>

theorem next_node_id_cases:
  "(edges g c = None \<longrightarrow> next_node_id g c h st = Inr None) \<and>
   (\<forall>e. edges g c = Some e \<and> (condition_key e = None \<or> condition_op e = None) \<longrightarrow>
        next_node_id g c h st = Inr (to_node e)) \<and>
   (\<forall>e key opr. edges g c = Some e \<and> condition_key e = Some key \<and> condition_op e = Some opr \<longrightarrow>
        (compare h (dict_get h st key) opr (condition_value e) = Inr True \<longrightarrow>
           next_node_id g c h st = Inr (true_target e)) \<and>
        (compare h (dict_get h st key) opr (condition_value e) = Inr False \<longrightarrow>
           next_node_id g c h st = Inr (false_target e)) \<and>
        (\<forall>err. compare h (dict_get h st key) opr (condition_value e) = Inl err \<longrightarrow>
           next_node_id g c h st = Inl err) \<and>
        (opr \<notin> {''gt'', ''ge'', ''lt'', ''le'', ''eq'', ''ne''} \<longrightarrow>
           next_node_id g c h st =
             Inl (ValueError (''Unsupported operator '' @ [CHR 0x27] @ opr @ [CHR 0x27] @ ''.'')))) \<and>
   (map_of (dict_at h st) k = None \<longrightarrow> dict_get h st k = VNone) \<and>
   (\<forall>v. map_of (dict_at h st) k = Some v \<longrightarrow> dict_get h st k = v) \<and>
   compare h a ''gt'' b = py_gt h a b \<and> compare h a ''ge'' b = py_ge h a b \<and>
   compare h a ''lt'' b = py_lt h a b \<and> compare h a ''le'' b = py_le h a b \<and>
   compare h a ''eq'' b = py_equal h a b \<and> compare h a ''ne'' b = py_ne h a b \<and>
   py_gt h (VInt i) (VInt j) = Inr (i > j) \<and> py_ge h (VInt i) (VInt j) = Inr (i \<ge> j) \<and>
   py_lt h (VInt i) (VInt j) = Inr (i < j) \<and> py_le h (VInt i) (VInt j) = Inr (i \<le> j) \<and>
   py_equal h (VInt i) (VInt j) = Inr (i = j) \<and> py_ne h (VInt i) (VInt j) = Inr (i \<noteq> j)"
proof -
  have terminal: "edges g c = None \<longrightarrow> next_node_id g c h st = Inr None"
    by (simp add: next_node_id_def)
  have linear: "\<forall>e. edges g c = Some e \<and> (condition_key e = None \<or> condition_op e = None) \<longrightarrow>
        next_node_id g c h st = Inr (to_node e)"
    by (auto simp: next_node_id_def split: option.splits)
  have cond: "\<forall>e key opr. edges g c = Some e \<and> condition_key e = Some key \<and> condition_op e = Some opr \<longrightarrow>
        (compare h (dict_get h st key) opr (condition_value e) = Inr True \<longrightarrow>
           next_node_id g c h st = Inr (true_target e)) \<and>
        (compare h (dict_get h st key) opr (condition_value e) = Inr False \<longrightarrow>
           next_node_id g c h st = Inr (false_target e)) \<and>
        (\<forall>err. compare h (dict_get h st key) opr (condition_value e) = Inl err \<longrightarrow>
           next_node_id g c h st = Inl err) \<and>
        (opr \<notin> {''gt'', ''ge'', ''lt'', ''le'', ''eq'', ''ne''} \<longrightarrow>
           next_node_id g c h st =
             Inl (ValueError (''Unsupported operator '' @ [CHR 0x27] @ opr @ [CHR 0x27] @ ''.'')))"
    by (simp add: next_node_id_def compare_def quoted_def)
  have lookup: "(map_of (dict_at h st) k = None \<longrightarrow> dict_get h st k = VNone) \<and>
      (\<forall>v. map_of (dict_at h st) k = Some v \<longrightarrow> dict_get h st k = v)"
    by (simp add: dict_get_def)
  have ops: "compare h a ''gt'' b = py_gt h a b \<and> compare h a ''ge'' b = py_ge h a b \<and>
      compare h a ''lt'' b = py_lt h a b \<and> compare h a ''le'' b = py_le h a b \<and>
      compare h a ''eq'' b = py_equal h a b \<and> compare h a ''ne'' b = py_ne h a b"
    by (simp add: compare_def)
  have ints: "py_gt h (VInt i) (VInt j) = Inr (i > j) \<and> py_ge h (VInt i) (VInt j) = Inr (i \<ge> j) \<and>
      py_lt h (VInt i) (VInt j) = Inr (i < j) \<and> py_le h (VInt i) (VInt j) = Inr (i \<le> j) \<and>
      py_equal h (VInt i) (VInt j) = Inr (i = j) \<and> py_ne h (VInt i) (VInt j) = Inr (i \<noteq> j)"
    by (simp add: py_gt_def py_ge_def py_lt_def py_le_def py_equal_def py_ne_def num_of_def)
  from terminal linear cond lookup ops ints show ?thesis by blast
qed

theorem next_node_id_cases_witness:
  "next_node_id refine_graph ''merge'' refine_heap 2 = Inr None \<and>
   next_node_id refine_graph ''refine'' refine_heap 2 = Inr (Some ''evaluate'') \<and>
   next_node_id refine_graph ''evaluate'' refine_heap 2 = Inr (Some ''refine'') \<and>
   next_node_id refine_graph ''evaluate''
     (dict_update refine_heap 2 [(''summary_length'', VInt 80)]) 2 = Inr None \<and>
   dict_get refine_heap 1 ''summary_length'' = VNone \<and>
   next_node_id refine_graph ''evaluate'' refine_heap 1 = Inl TypeError \<and>
   next_node_id broken_graph ''evaluate'' refine_heap 2 =
     Inl (ValueError ''Unsupported operator 'between'.'')"
  using next_node_id_cases [of refine_graph "''merge''" refine_heap 2 "''summary_length''"]
    next_node_id_cases [of refine_graph "''refine''" refine_heap 2 "''summary_length''"]
    next_node_id_cases [of refine_graph "''evaluate''" refine_heap 2 "''summary_length''"]
    next_node_id_cases [of refine_graph "''evaluate''"
       "dict_update refine_heap 2 [(''summary_length'', VInt 80)]" 2 "''summary_length''"]
    next_node_id_cases [of refine_graph "''evaluate''" refine_heap 1 "''summary_length''"]
    next_node_id_cases [of broken_graph "''evaluate''" refine_heap 2 "''summary_length''"]
  by (simp add: refine_graph_def broken_graph_def refine_heap_def refine_edge_def evaluate_edge_def
      dict_get_def dict_at_def dict_update_def merge_items_def compare_def py_gt_def num_of_def
      quoted_def)

section \<open>Properties of the step loop\<close>

subsection \<open>The step loop along a path\<close>

lemma run_loop_step:
  assumes "nodes g a = Some n" and "get reg (node_tool n) = Inr f"
    and "f h st (node_config n) = (Inr r, h1)"
    and "next_node_id g a (store_after_step h1 st r) st = Inr nxt"
  shows "run_loop g reg st (i # rest) h (Some a) logs =
         run_loop g reg st rest (store_after_step h1 st r) nxt
           (logs @ [\<lparr>step_index = i, node_id = node_ident n, tool = node_tool n,
                     state_snapshot = st + length (dict_objs h1)\<rparr>])"
  using assms by (simp add: store_after_step_def deepcopy_def dict_update_def)

lemma walk_exec:
  "walk I g reg st ns nxt \<Longrightarrow> I h \<Longrightarrow> length ns \<le> length idxs \<Longrightarrow>
   \<exists>h' es. I h' \<and> map step_index es = take (length ns) idxs \<and>
     run_loop g reg st idxs h (Some (hd ns)) logs =
     run_loop g reg st (drop (length ns) idxs) h' nxt (logs @ es)"
proof (induction I g reg st ns nxt arbitrary: h idxs logs rule: walk.induct)
  case (1 I g reg st nxt)
  then show ?case by simp
next
  case (2 I g reg st a nxt)
  from "2.prems" obtain i rest where idxs: "idxs = i # rest" by (cases idxs) auto
  from "2.prems" obtain n f where n: "nodes g a = Some n" "get reg (node_tool n) = Inr f"
    and f: "\<forall>h. I h \<longrightarrow> (\<exists>r h1. f h st (node_config n) = (Inr r, h1) \<and> I (store_after_step h1 st r))"
    by (auto simp: node_ok_def)
  from f "2.prems"(2) obtain r h1 where r: "f h st (node_config n) = (Inr r, h1)"
    and I': "I (store_after_step h1 st r)" by blast
  from "2.prems"(1) I' have nx: "next_node_id g a (store_after_step h1 st r) st = Inr nxt"
    by (simp add: routes_def)
  let ?e = "\<lparr>step_index = i, node_id = node_ident n, tool = node_tool n,
              state_snapshot = st + length (dict_objs h1)\<rparr>"
  have "run_loop g reg st idxs h (Some a) logs =
        run_loop g reg st rest (store_after_step h1 st r) nxt (logs @ [?e])"
    unfolding idxs by (rule run_loop_step [OF n r nx])
  with I' idxs show ?case
    by (intro exI [of _ "store_after_step h1 st r"] exI [of _ "[?e]"]) simp
next
  case (3 I g reg st a b ns nxt)
  from "3.prems" obtain i rest where idxs: "idxs = i # rest" by (cases idxs) auto
  from "3.prems" obtain n f where n: "nodes g a = Some n" "get reg (node_tool n) = Inr f"
    and f: "\<forall>h. I h \<longrightarrow> (\<exists>r h1. f h st (node_config n) = (Inr r, h1) \<and> I (store_after_step h1 st r))"
    by (auto simp: node_ok_def)
  from f "3.prems"(2) obtain r h1 where r: "f h st (node_config n) = (Inr r, h1)"
    and I': "I (store_after_step h1 st r)" by blast
  from "3.prems"(1) I' have nx: "next_node_id g a (store_after_step h1 st r) st = Inr (Some b)"
    by (simp add: routes_def)
  let ?e = "\<lparr>step_index = i, node_id = node_ident n, tool = node_tool n,
              state_snapshot = st + length (dict_objs h1)\<rparr>"
  have first: "run_loop g reg st idxs h (Some a) logs =
        run_loop g reg st rest (store_after_step h1 st r) (Some b) (logs @ [?e])"
    unfolding idxs by (rule run_loop_step [OF n r nx])
  from "3.prems" idxs have len: "length (b # ns) \<le> length rest" by simp
  from "3.prems"(1) have w: "walk I g reg st (b # ns) nxt" by simp
  from "3.IH" [OF w I' len, of "logs @ [?e]"]
  obtain h' es where h': "I h'" and es: "map step_index es = take (length (b # ns)) rest"
    and run: "run_loop g reg st rest (store_after_step h1 st r) (Some (hd (b # ns))) (logs @ [?e]) =
              run_loop g reg st (drop (length (b # ns)) rest) h' nxt ((logs @ [?e]) @ es)"
    by blast
  show ?case
    using h' es run first idxs
    by (intro exI [of _ h'] exI [of _ "?e # es"]) simp
qed

lemma chain_walk:
  "chain g ns \<Longrightarrow> \<forall>a\<in>set ns. node_ok I g reg st a \<Longrightarrow> walk I g reg st ns None"
proof (induction g ns rule: chain.induct)
  case (1 g)
  then show ?case by simp
next
  case (2 g a)
  then show ?case
    by (auto simp: routes_def linear_edge_def next_node_id_def split: option.splits)
next
  case (3 g a b ns)
  then show ?case
    by (auto simp: routes_def linear_edge_def next_node_id_def split: option.splits)
qed

lemma loop_walk:
  "node_ok I g reg st s \<Longrightarrow> routes I g st s (Some s) \<Longrightarrow> walk I g reg st (replicate (Suc k) s) (Some s)"
  by (induction k) simp_all

lemma run_loop_status:
  "run_loop g reg st idxs h cur logs = (Inr (s, cur', logs'), h') \<Longrightarrow>
   s \<noteq> Running \<and> length logs' \<le> length logs + length idxs \<and>
   (s = Completed \<longrightarrow> cur' = None \<and> length logs' < length logs + length idxs) \<and>
   (s = Failed \<longrightarrow> (\<exists>c. cur' = Some c \<and> nodes g c = None) \<or>
                  length logs' = length logs + length idxs)"
proof (induction idxs arbitrary: h cur logs)
  case Nil
  then show ?case by auto
next
  case (Cons i rest)
  show ?case
  proof (cases cur)
    case None
    with Cons.prems show ?thesis by auto
  next
    case (Some c)
    show ?thesis
    proof (cases "nodes g c")
      case None
      with Some Cons.prems show ?thesis by auto
    next
      case (Some n)
      with \<open>cur = Some c\<close> Cons.prems obtain h3 nxt e where
        "run_loop g reg st rest h3 nxt (logs @ [e]) = (Inr (s, cur', logs'), h')"
        by (auto simp: Let_def split: sum.splits prod.splits)
      from Cons.IH [OF this] show ?thesis by auto
    qed
  qed
qed

lemma run_graph_unfold:
  "graphs eng gid = Some g \<Longrightarrow>
   run_graph eng h uuid gid initial_state max_steps =
     (case run_loop g (tool_registry eng) (length (dict_objs h)) (map int [0..<nat max_steps])
             (fst (dict_copy h initial_state)) (Some (start_node g)) [] of
        (Inl err, h') \<Rightarrow> (Inl err, eng, h')
      | (Inr (stat, cur, logs), h') \<Rightarrow>
          (Inr \<lparr>run_ident = uuid, graph_id = gid, status = stat, current_node = cur,
                state = length (dict_objs h), log = logs\<rparr>,
           eng\<lparr>runs := (runs eng)(uuid \<mapsto>
                 \<lparr>run_ident = uuid, graph_id = gid, status = stat, current_node = cur,
                  state = length (dict_objs h), log = logs\<rparr>)\<rparr>, h'))"
  by (simp add: run_graph_def get_graph_def dict_copy_def Let_def split: prod.splits sum.splits)

lemma length_dicts_dict_update [simp]: "length (dict_objs (dict_update h a u)) = length (dict_objs h)"
  by (simp add: dict_update_def)

lemma dict_at_dict_update:
  "dict_at (dict_update h a u) b =
     (if b = a \<and> a < length (dict_objs h) then merge_items (dict_at h a) u else dict_at h b)"
  by (simp add: dict_update_def dict_at_def)

lemma dict_at_duplicate: "a < length (dict_objs h) \<Longrightarrow> dict_at (duplicate h) a = dict_at h a"
  by (simp add: duplicate_def dict_at_def Let_def nth_append)

lemma length_dicts_duplicate: "length (dict_objs (duplicate h)) = 2 * length (dict_objs h)"
  by (simp add: duplicate_def Let_def)

lemma dict_at_store_after_step:
  "st < length (dict_objs h1) \<Longrightarrow>
   dict_at (store_after_step h1 st r) st =
     merge_items (dict_at h1 st) (case r of None \<Rightarrow> [] | Some u \<Rightarrow> u)"
  by (simp add: store_after_step_def deepcopy_def dict_at_duplicate dict_at_dict_update)

lemma length_dicts_store_after_step:
  "length (dict_objs (store_after_step h1 st r)) = 2 * length (dict_objs h1)"
  by (simp add: store_after_step_def deepcopy_def length_dicts_duplicate)

lemmas example_defs = example_engine_def example_heap_def loop_graph_def line_graph_def
  dangling_graph_def crash_graph_def refine_graph_def plain_edge_def idle_tool_def count_tool_def
  crash_tool_def get_def quoted_def refine_edge_def evaluate_edge_def

lemmas run_defs = run_graph_def get_graph_def dict_copy_def dict_at_def dict_update_def
  merge_items_def deepcopy_def duplicate_def shift_dict_def shift_val_def next_node_id_def
  compare_def py_gt_def num_of_def dict_get_def Let_def upt_rec

subsection \<open>Budget exhaustion on a self-loop\<close>

text \<open>
  C3. A graph whose start node is routed back to itself in every store the run goes
  through, and whose tool resolves and returns: \<open>run_graph\<close> with \<open>max_steps = N\<close>
  (\<open>N\<close> not negative) returns a \<open>Run\<close> with status \<open>failed\<close> and exactly \<open>N\<close> log
  entries, the current node still being the looping node.
\<close>

theorem self_loop_exhausts_budget:
  assumes g: "graphs eng gid = Some g"
    and ok: "node_ok I g (tool_registry eng) (length (dict_objs h)) (start_node g)"
    and self: "routes I g (length (dict_objs h)) (start_node g) (Some (start_node g))"
    and I: "I (fst (dict_copy h initial_state))"
    and N: "0 \<le> N"
  shows "\<exists>r eng' h'. run_graph eng h uuid gid initial_state N = (Inr r, eng', h') \<and>
           status r = Failed \<and> int (length (log r)) = N \<and>
           current_node r = Some (start_node g)"
proof (cases "nat N")
  case 0
  with N have "N = 0" by simp
  then show ?thesis by (simp add: run_graph_unfold [OF g])
next
  case (Suc k)
  let ?idxs = "map int [0..<nat N]"
  have w: "walk I g (tool_registry eng) (length (dict_objs h)) (replicate (Suc k) (start_node g))
             (Some (start_node g))"
    by (rule loop_walk [OF ok self])
  have len: "length (replicate (Suc k) (start_node g)) \<le> length ?idxs"
    using Suc by simp
  from walk_exec [OF w I len, of "[]"]
  obtain h' es where es: "map step_index es = take (Suc k) ?idxs"
    and run: "run_loop g (tool_registry eng) (length (dict_objs h)) ?idxs
                (fst (dict_copy h initial_state)) (Some (start_node g)) [] =
              run_loop g (tool_registry eng) (length (dict_objs h)) (drop (Suc k) ?idxs) h'
                (Some (start_node g)) es"
    by auto
  have "length es = length (map step_index es)" by simp
  also have "\<dots> = Suc k" unfolding es using Suc by simp
  finally have n: "length es = nat N" using Suc by simp
  have "drop (Suc k) ?idxs = []" using Suc by simp
  with run have "run_loop g (tool_registry eng) (length (dict_objs h)) ?idxs
                (fst (dict_copy h initial_state)) (Some (start_node g)) [] =
              (Inr (Failed, Some (start_node g), es), h')"
    by simp
  with n N show ?thesis
    by (simp add: run_graph_unfold [OF g])
qed

theorem self_loop_exhausts_budget_witness:
  "\<exists>r eng' h'. run_graph example_engine example_heap ''run-1'' ''loop'' 1 3 = (Inr r, eng', h') \<and>
     status r = Failed \<and> int (length (log r)) = 3 \<and> current_node r = Some ''a''"
proof -
  let ?I = "\<lambda>h. 2 < length (dict_objs h) \<and> map_of (dict_at h 2) ''limit'' = Some (VInt 5)"
  have len: "length (dict_objs example_heap) = 2" and start: "start_node loop_graph = ''a''"
    by (simp_all add: example_heap_def loop_graph_def)
  have g: "graphs example_engine ''loop'' = Some loop_graph"
    by (simp add: example_engine_def)
  have ok: "node_ok ?I loop_graph (tool_registry example_engine) 2 ''a''"
    by (simp add: node_ok_def example_engine_def loop_graph_def count_tool_def get_def
        dict_at_store_after_step length_dicts_store_after_step merge_items_def update_conv')
  have self: "routes ?I loop_graph 2 ''a'' (Some ''a'')"
    by (simp add: routes_def next_node_id_def loop_graph_def dict_get_def compare_def py_gt_def
        num_of_def)
  have I: "?I (fst (dict_copy example_heap 1))"
    by (simp add: dict_copy_def example_heap_def dict_at_def)
  from self_loop_exhausts_budget [of example_engine "''loop''" loop_graph ?I example_heap 1 3 "''run-1''"]
    g ok self I
  show ?thesis by (simp add: len start)
qed

subsection \<open>Linear chains\<close>

text \<open>
  C5. A pure linear chain of \<open>k\<close> nodes starting at the start node, with \<open>k < max_steps\<close>,
  every node in the node map with a tool that resolves and returns: \<open>run_graph\<close> returns
  a \<open>Run\<close> with status \<open>completed\<close> whose log has exactly \<open>k\<close> entries with the step
  indices \<open>0, 1, ..., k - 1\<close> in order.
\<close>

theorem linear_chain_completes:
  assumes g: "graphs eng gid = Some g"
    and c: "chain g ns"
    and hd: "hd ns = start_node g"
    and ok: "\<forall>a\<in>set ns. node_ok I g (tool_registry eng) (length (dict_objs h)) a"
    and I: "I (fst (dict_copy h initial_state))"
    and k: "int (length ns) < max_steps"
  shows "\<exists>r eng' h'. run_graph eng h uuid gid initial_state max_steps = (Inr r, eng', h') \<and>
           status r = Completed \<and> length (log r) = length ns \<and>
           map step_index (log r) = map int [0..<length ns] \<and> current_node r = None"
proof -
  let ?idxs = "map int [0..<nat max_steps]"
  have w: "walk I g (tool_registry eng) (length (dict_objs h)) ns None"
    by (rule chain_walk [OF c ok])
  have len: "length ns \<le> length ?idxs" using k by simp
  from walk_exec [OF w I len, of "[]"] hd
  obtain h' es where es: "map step_index es = take (length ns) ?idxs"
    and run: "run_loop g (tool_registry eng) (length (dict_objs h)) ?idxs
                (fst (dict_copy h initial_state)) (Some (start_node g)) [] =
              run_loop g (tool_registry eng) (length (dict_objs h)) (drop (length ns) ?idxs) h' None es"
    by auto
  have idx: "take (length ns) ?idxs = map int [0..<length ns]"
    using k by (simp add: take_map min_def)
  have "length es = length (map step_index es)" by simp
  also have "\<dots> = length ns" unfolding es idx by simp
  finally have n: "length es = length ns" .
  from k have "drop (length ns) ?idxs \<noteq> []" by simp
  then obtain i rest where "drop (length ns) ?idxs = i # rest"
    by (cases "drop (length ns) ?idxs") auto
  with run have "run_loop g (tool_registry eng) (length (dict_objs h)) ?idxs
                (fst (dict_copy h initial_state)) (Some (start_node g)) [] =
              (Inr (Completed, None, es), h')"
    by simp
  with n es idx show ?thesis
    by (simp add: run_graph_unfold [OF g])
qed

theorem linear_chain_completes_witness:
  "\<exists>r eng' h'. run_graph example_engine example_heap ''run-1'' ''line'' 1 3 = (Inr r, eng', h') \<and>
     status r = Completed \<and> length (log r) = 2 \<and> map step_index (log r) = [0, 1] \<and>
     current_node r = None"
proof -
  have len: "length (dict_objs example_heap) = 2" and start: "start_node line_graph = ''a''"
    by (simp_all add: example_heap_def line_graph_def)
  have g: "graphs example_engine ''line'' = Some line_graph"
    by (simp add: example_engine_def)
  have c: "chain line_graph [''a'', ''b'']"
    by (simp add: linear_edge_def line_graph_def plain_edge_def)
  have ok: "\<forall>a\<in>set [''a'', ''b'']. node_ok (\<lambda>h. True) line_graph (tool_registry example_engine) 2 a"
    by (simp add: node_ok_def example_engine_def line_graph_def count_tool_def idle_tool_def get_def)
  from linear_chain_completes [of example_engine "''line''" line_graph "[''a'', ''b'']"
      "\<lambda>h. True" example_heap 1 3 "''run-1''"] g c ok
  show ?thesis by (simp add: len start upt_rec numeral_2_eq_2)
qed

subsection \<open>Edges to nodes that do not exist\<close>

text \<open>
  C6. When the executed nodes, from the start node on, lead by their outgoing edges to
  an id \<open>t\<close> that is not in the node map (each executed node's tool resolving and
  returning, at least one node executed within the budget), \<open>run_graph\<close> returns a \<open>Run\<close>
  with status \<open>failed\<close> whose \<open>current_node\<close> is \<open>t\<close>.
\<close>

theorem dangling_target_fails:
  assumes g: "graphs eng gid = Some g"
    and w: "walk I g (tool_registry eng) (length (dict_objs h)) ns (Some t)"
    and hd: "hd ns = start_node g"
    and I: "I (fst (dict_copy h initial_state))"
    and t: "nodes g t = None"
    and k: "int (length ns) \<le> max_steps"
  shows "\<exists>r eng' h'. run_graph eng h uuid gid initial_state max_steps = (Inr r, eng', h') \<and>
           status r = Failed \<and> current_node r = Some t \<and> length (log r) = length ns"
proof -
  let ?idxs = "map int [0..<nat max_steps]"
  have len: "length ns \<le> length ?idxs" using k by simp
  from walk_exec [OF w I len, of "[]"] hd
  obtain h' es where es: "map step_index es = take (length ns) ?idxs"
    and run: "run_loop g (tool_registry eng) (length (dict_objs h)) ?idxs
                (fst (dict_copy h initial_state)) (Some (start_node g)) [] =
              run_loop g (tool_registry eng) (length (dict_objs h)) (drop (length ns) ?idxs) h'
                (Some t) es"
    by auto
  have "length es = length (map step_index es)" by simp
  also have "\<dots> = length ns" unfolding es using len by simp
  finally have n: "length es = length ns" .
  have "run_loop g (tool_registry eng) (length (dict_objs h)) (drop (length ns) ?idxs) h' (Some t) es =
        (Inr (Failed, Some t, es), h')"
    using t by (cases "drop (length ns) ?idxs") simp_all
  with run n show ?thesis
    by (simp add: run_graph_unfold [OF g])
qed

theorem dangling_target_fails_witness:
  "\<exists>r eng' h'. run_graph example_engine example_heap ''run-1'' ''dangling'' 1 3 = (Inr r, eng', h') \<and>
     status r = Failed \<and> current_node r = Some ''ghost'' \<and> length (log r) = 1"
proof -
  have len: "length (dict_objs example_heap) = 2" and start: "start_node dangling_graph = ''a''"
    by (simp_all add: example_heap_def dangling_graph_def)
  have g: "graphs example_engine ''dangling'' = Some dangling_graph"
    by (simp add: example_engine_def)
  have w: "walk (\<lambda>h. True) dangling_graph (tool_registry example_engine) 2 [''a''] (Some ''ghost'')"
    by (simp add: node_ok_def routes_def next_node_id_def example_engine_def dangling_graph_def
        plain_edge_def idle_tool_def get_def)
  have t: "nodes dangling_graph ''ghost'' = None"
    by (simp add: dangling_graph_def)
  from dangling_target_fails [of example_engine "''dangling''" dangling_graph "\<lambda>h. True"
      example_heap "[''a'']" "''ghost''" 1 3 "''run-1''"] g w t
  show ?thesis by (simp add: len start)
qed

subsection \<open>The boundary of the step budget\<close>

text \<open>
  C4. A returned \<open>Run\<close> has status \<open>completed\<close> only if its current node is \<open>None\<close> and
  fewer than \<open>max_steps\<close> steps were logged, and a \<open>Run\<close> with \<open>max_steps\<close> logged steps
  has status \<open>failed\<close>. So \<open>max_steps = 0\<close> gives, for every known graph, status \<open>failed\<close>
  with an empty log, and a linear chain of exactly \<open>max_steps\<close> nodes gives status
  \<open>failed\<close> although \<open>current_node\<close> is \<open>None\<close>.
\<close>

theorem completed_only_below_budget:
  "(\<forall>r eng' h'. run_graph eng h uuid gid initial_state max_steps = (Inr r, eng', h') \<longrightarrow>
      (status r = Completed \<longrightarrow> current_node r = None \<and> int (length (log r)) < max_steps) \<and>
      (int (length (log r)) = max_steps \<longrightarrow> status r = Failed)) \<and>
   (\<forall>g. graphs eng gid = Some g \<longrightarrow>
      (\<exists>r eng' h'. run_graph eng h uuid gid initial_state 0 = (Inr r, eng', h') \<and>
         status r = Failed \<and> log r = [])) \<and>
   (\<forall>g ns I. graphs eng gid = Some g \<and> chain g ns \<and> hd ns = start_node g \<and>
        (\<forall>a\<in>set ns. node_ok I g (tool_registry eng) (length (dict_objs h)) a) \<and>
        I (fst (dict_copy h initial_state)) \<longrightarrow>
      (\<exists>r eng' h'. run_graph eng h uuid gid initial_state (int (length ns)) = (Inr r, eng', h') \<and>
         status r = Failed \<and> current_node r = None \<and> length (log r) = length ns))"
proof -
  have budget: "(status r = Completed \<longrightarrow> current_node r = None \<and> int (length (log r)) < max_steps) \<and>
      (int (length (log r)) = max_steps \<longrightarrow> status r = Failed)"
    if run: "run_graph eng h uuid gid initial_state max_steps = (Inr r, eng', h')" for r eng' h'
  proof -
    from run obtain g where g: "graphs eng gid = Some g"
      by (cases "graphs eng gid") (auto simp: run_graph_def get_graph_def)
    from run obtain stat cur logs where
      loop: "run_loop g (tool_registry eng) (length (dict_objs h)) (map int [0..<nat max_steps])
               (fst (dict_copy h initial_state)) (Some (start_node g)) [] = (Inr (stat, cur, logs), h')"
      and r: "status r = stat" "current_node r = cur" "log r = logs"
      by (auto simp: run_graph_unfold [OF g] split: prod.splits sum.splits)
    from run_loop_status [OF loop]
    have c: "stat = Completed \<longrightarrow> cur = None \<and> length logs < nat max_steps"
      and f: "stat \<noteq> Running"
      by simp_all
    from c f r show ?thesis by (cases stat) auto
  qed
  have zero: "\<exists>r eng' h'. run_graph eng h uuid gid initial_state 0 = (Inr r, eng', h') \<and>
         status r = Failed \<and> log r = []" if g: "graphs eng gid = Some g" for g
    by (simp add: run_graph_unfold [OF g])
  have exact: "\<exists>r eng' h'. run_graph eng h uuid gid initial_state (int (length ns)) = (Inr r, eng', h') \<and>
         status r = Failed \<and> current_node r = None \<and> length (log r) = length ns"
    if a: "graphs eng gid = Some g \<and> chain g ns \<and> hd ns = start_node g \<and>
        (\<forall>a\<in>set ns. node_ok I g (tool_registry eng) (length (dict_objs h)) a) \<and>
        I (fst (dict_copy h initial_state))" for g ns I
  proof -
    from a have g: "graphs eng gid = Some g" and hd: "hd ns = start_node g"
      and I: "I (fst (dict_copy h initial_state))" by simp_all
    let ?idxs = "map int [0..<nat (int (length ns))]"
    from a have w: "walk I g (tool_registry eng) (length (dict_objs h)) ns None"
      by (intro chain_walk) simp_all
    have len: "length ns \<le> length ?idxs" by simp
    from walk_exec [OF w I len, of "[]"] hd
    obtain h' es where es: "map step_index es = take (length ns) ?idxs"
      and run: "run_loop g (tool_registry eng) (length (dict_objs h)) ?idxs
                  (fst (dict_copy h initial_state)) (Some (start_node g)) [] =
                run_loop g (tool_registry eng) (length (dict_objs h)) (drop (length ns) ?idxs) h' None es"
      by auto
    have "length es = length (map step_index es)" by simp
    also have "\<dots> = length ns" unfolding es by simp
    finally have n: "length es = length ns" .
    from run have "run_loop g (tool_registry eng) (length (dict_objs h)) ?idxs
                  (fst (dict_copy h initial_state)) (Some (start_node g)) [] =
                (Inr (Failed, None, es), h')"
      by simp
    with n show ?thesis
      by (simp add: run_graph_unfold [OF g])
  qed
  from budget zero exact show ?thesis by blast
qed

theorem completed_only_below_budget_witness:
  "(\<exists>r eng' h'. run_graph example_engine example_heap ''run-1'' ''line'' 1 3 = (Inr r, eng', h') \<and>
      status r = Completed \<and> current_node r = None \<and> int (length (log r)) < 3) \<and>
   (\<exists>r eng' h'. run_graph example_engine example_heap ''run-1'' ''line'' 1 0 = (Inr r, eng', h') \<and>
      status r = Failed \<and> log r = []) \<and>
   (\<exists>r eng' h'. run_graph example_engine example_heap ''run-1'' ''line'' 1 2 = (Inr r, eng', h') \<and>
      status r = Failed \<and> current_node r = None \<and> length (log r) = 2)"
proof -
  have g: "graphs example_engine ''line'' = Some line_graph"
    by (simp add: example_engine_def)
  have len: "length (dict_objs example_heap) = 2" and start: "start_node line_graph = ''a''"
    by (simp_all add: example_heap_def line_graph_def)
  have c: "chain line_graph [''a'', ''b'']"
    by (simp add: linear_edge_def line_graph_def plain_edge_def)
  have ok: "\<forall>a\<in>set [''a'', ''b'']. node_ok (\<lambda>h. True) line_graph (tool_registry example_engine) 2 a"
    by (simp add: node_ok_def example_engine_def line_graph_def count_tool_def idle_tool_def get_def)
  have "fst (run_graph example_engine example_heap ''run-1'' ''line'' 1 3) =
     Inr \<lparr>run_ident = ''run-1'', graph_id = ''line'', status = Completed, current_node = None,
          state = 2, log = [\<lparr>step_index = 0, node_id = ''a'', tool = ''count'', state_snapshot = 5\<rparr>,
                            \<lparr>step_index = 1, node_id = ''b'', tool = ''idle'', state_snapshot = 8\<rparr>]\<rparr>"
    by (simp add: example_defs run_defs)
  then obtain r eng' h' where
    run: "run_graph example_engine example_heap ''run-1'' ''line'' 1 3 = (Inr r, eng', h')"
    and r: "status r = Completed"
    by (cases "run_graph example_engine example_heap ''run-1'' ''line'' 1 3") auto
  note inst = completed_only_below_budget [of example_engine example_heap "''run-1''" "''line''" 1]
  from inst [of 3] run r have first: "\<exists>r eng' h'. run_graph example_engine example_heap ''run-1'' ''line'' 1 3 = (Inr r, eng', h') \<and>
      status r = Completed \<and> current_node r = None \<and> int (length (log r)) < 3"
    by blast
  from inst [of 0] g have second: "\<exists>r eng' h'. run_graph example_engine example_heap ''run-1'' ''line'' 1 0 = (Inr r, eng', h') \<and>
      status r = Failed \<and> log r = []"
    by blast
  have "graphs example_engine ''line'' = Some line_graph \<and> chain line_graph [''a'', ''b''] \<and>
      hd [''a'', ''b''] = start_node line_graph \<and>
      (\<forall>a\<in>set [''a'', ''b'']. node_ok (\<lambda>h. True) line_graph (tool_registry example_engine)
          (length (dict_objs example_heap)) a) \<and> True"
    using g c ok by (simp add: len start)
  with inst [of 2] have third: "\<exists>r eng' h'. run_graph example_engine example_heap ''run-1'' ''line'' 1
        (int (length [''a'', ''b''])) = (Inr r, eng', h') \<and>
      status r = Failed \<and> current_node r = None \<and> length (log r) = length [''a'', ''b'']"
    by blast
  from first second third show ?thesis by (simp add: numeral_2_eq_2)
qed

subsection \<open>Runs are recorded\<close>

text \<open>
  C8. \<open>run_graph\<close> on an unknown graph id raises \<open>KeyError\<close> and leaves the engine as it
  is, so no \<open>Run\<close> is recorded. Whenever \<open>run_graph\<close> returns a \<open>Run\<close>, its status is
  \<open>completed\<close> or \<open>failed\<close>, the very same record is stored under its id and \<open>get_run\<close>
  with that id returns it, the other stored runs being untouched. \<open>get_run\<close> on an id
  that is not stored raises \<open>KeyError\<close>.
\<close>

theorem run_is_recorded:
  "(graphs eng gid = None \<longrightarrow>
      run_graph eng h uuid gid initial_state max_steps =
        (Inl (KeyError (''Graph '' @ [CHR 0x27] @ gid @ [CHR 0x27] @ '' not found.'')), eng, h)) \<and>
   (\<forall>r eng' h'. run_graph eng h uuid gid initial_state max_steps = (Inr r, eng', h') \<longrightarrow>
      run_ident r = uuid \<and> (status r = Completed \<or> status r = Failed) \<and>
      runs eng' (run_ident r) = Some r \<and> get_run eng' (run_ident r) = Inr r \<and>
      (\<forall>rid. rid \<noteq> uuid \<longrightarrow> get_run eng' rid = get_run eng rid)) \<and>
   (runs eng rid = None \<longrightarrow>
      get_run eng rid = Inl (KeyError (''Run '' @ [CHR 0x27] @ rid @ [CHR 0x27] @ '' not found.'')))"
proof -
  have unknown: "run_graph eng h uuid gid initial_state max_steps =
        (Inl (KeyError (''Graph '' @ [CHR 0x27] @ gid @ [CHR 0x27] @ '' not found.'')), eng, h)"
    if "graphs eng gid = None"
    using that by (simp add: run_graph_def get_graph_def quoted_def)
  have stored: "run_ident r = uuid \<and> (status r = Completed \<or> status r = Failed) \<and>
      runs eng' (run_ident r) = Some r \<and> get_run eng' (run_ident r) = Inr r \<and>
      (\<forall>rid. rid \<noteq> uuid \<longrightarrow> get_run eng' rid = get_run eng rid)"
    if run: "run_graph eng h uuid gid initial_state max_steps = (Inr r, eng', h')" for r eng' h'
  proof -
    from run obtain g where g: "graphs eng gid = Some g"
      by (cases "graphs eng gid") (auto simp: run_graph_def get_graph_def)
    from run obtain stat cur logs where
      loop: "run_loop g (tool_registry eng) (length (dict_objs h)) (map int [0..<nat max_steps])
               (fst (dict_copy h initial_state)) (Some (start_node g)) [] = (Inr (stat, cur, logs), h')"
      and r: "r = \<lparr>run_ident = uuid, graph_id = gid, status = stat, current_node = cur,
                   state = length (dict_objs h), log = logs\<rparr>"
      and e: "eng' = eng\<lparr>runs := (runs eng)(uuid \<mapsto> r)\<rparr>"
      by (auto simp: run_graph_unfold [OF g] split: prod.splits sum.splits)
    from run_loop_status [OF loop] have "stat \<noteq> Running" by simp
    then have "stat = Completed \<or> stat = Failed" by (cases stat) auto
    with r e show ?thesis by (simp add: get_run_def)
  qed
  have missing: "get_run eng rid = Inl (KeyError (''Run '' @ [CHR 0x27] @ rid @ [CHR 0x27] @ '' not found.''))"
    if "runs eng rid = None"
    using that by (simp add: get_run_def quoted_def)
  from unknown stored missing show ?thesis by blast
qed

theorem run_is_recorded_witness:
  "run_graph example_engine example_heap ''run-1'' ''nowhere'' 1 3 =
     (Inl (KeyError ''Graph 'nowhere' not found.''), example_engine, example_heap) \<and>
   (\<exists>r eng' h'. run_graph example_engine example_heap ''run-1'' ''dangling'' 1 3 = (Inr r, eng', h') \<and>
      status r = Failed \<and> run_ident r = ''run-1'' \<and> get_run eng' ''run-1'' = Inr r) \<and>
   get_run example_engine ''run-1'' = Inl (KeyError ''Run 'run-1' not found.'')"
proof -
  note inst = run_is_recorded [of example_engine _ example_heap "''run-1''" 1 3 "''run-1''"]
  have none: "graphs example_engine ''nowhere'' = None" "runs example_engine ''run-1'' = None"
    by (simp_all add: example_engine_def)
  have "fst (run_graph example_engine example_heap ''run-1'' ''dangling'' 1 3) =
     Inr \<lparr>run_ident = ''run-1'', graph_id = ''dangling'', status = Failed,
          current_node = Some ''ghost'', state = 2,
          log = [\<lparr>step_index = 0, node_id = ''a'', tool = ''idle'', state_snapshot = 5\<rparr>]\<rparr>"
    by (simp add: example_defs run_defs)
  then obtain r eng' h' where
    run: "run_graph example_engine example_heap ''run-1'' ''dangling'' 1 3 = (Inr r, eng', h')"
    and r: "status r = Failed"
    by (cases "run_graph example_engine example_heap ''run-1'' ''dangling'' 1 3") auto
  from inst [of "''dangling''"] run r
  have "\<exists>r eng' h'. run_graph example_engine example_heap ''run-1'' ''dangling'' 1 3 = (Inr r, eng', h') \<and>
      status r = Failed \<and> run_ident r = ''run-1'' \<and> get_run eng' ''run-1'' = Inr r"
    by auto
  with inst [of "''nowhere''"] none show ?thesis by simp
qed

subsection \<open>Errors inside the step loop\<close>

text \<open>
  C1, as the code has it. \<open>run_graph\<close> raises \<open>KeyError\<close> when the graph id is unknown.
  It also raises whenever the step loop raises: an exception of the loop leaves
  \<open>run_graph\<close> unchanged, the engine is left as it was and no \<open>Run\<close> is returned or
  recorded. The loop raises at a node of the node map when the node's tool name is not
  registered (\<open>KeyError\<close> of \<open>ToolRegistry.get\<close>), when the tool raises, and when the
  comparison of the node's conditional edge raises; there is no handler in the loop.
  A returned \<open>Run\<close> has status \<open>failed\<close> only when its current node is not in the node
  map or when the step budget is exhausted.
\<close>

theorem loop_errors_propagate:
  "(graphs eng gid = None \<longrightarrow>
      run_graph eng h uuid gid initial_state max_steps =
        (Inl (KeyError (''Graph '' @ [CHR 0x27] @ gid @ [CHR 0x27] @ '' not found.'')), eng, h)) \<and>
   (\<forall>g err h'. graphs eng gid = Some g \<and>
        run_loop g (tool_registry eng) (length (dict_objs h)) (map int [0..<nat max_steps])
          (fst (dict_copy h initial_state)) (Some (start_node g)) [] = (Inl err, h') \<longrightarrow>
      run_graph eng h uuid gid initial_state max_steps = (Inl err, eng, h')) \<and>
   (\<forall>n. nodes gr c = Some n \<longrightarrow>
      (\<forall>err. get reg (node_tool n) = Inl err \<longrightarrow>
         run_loop gr reg st (i # rest) h1 (Some c) logs = (Inl err, h1)) \<and>
      (\<forall>f err h2. get reg (node_tool n) = Inr f \<and> f h1 st (node_config n) = (Inl err, h2) \<longrightarrow>
         run_loop gr reg st (i # rest) h1 (Some c) logs = (Inl err, h2)) \<and>
      (\<forall>f r h2 err. get reg (node_tool n) = Inr f \<and> f h1 st (node_config n) = (Inr r, h2) \<and>
           next_node_id gr c (store_after_step h2 st r) st = Inl err \<longrightarrow>
         run_loop gr reg st (i # rest) h1 (Some c) logs = (Inl err, store_after_step h2 st r))) \<and>
   (\<forall>r eng' h'. run_graph eng h uuid gid initial_state max_steps = (Inr r, eng', h') \<and>
        status r = Failed \<longrightarrow>
      (\<exists>g c. graphs eng gid = Some g \<and> current_node r = Some c \<and> nodes g c = None) \<or>
      length (log r) = nat max_steps)"
proof -
  have unknown: "run_graph eng h uuid gid initial_state max_steps =
        (Inl (KeyError (''Graph '' @ [CHR 0x27] @ gid @ [CHR 0x27] @ '' not found.'')), eng, h)"
    if "graphs eng gid = None"
    using that by (simp add: run_graph_def get_graph_def quoted_def)
  have raised: "run_graph eng h uuid gid initial_state max_steps = (Inl err, eng, h')"
    if "graphs eng gid = Some g \<and>
        run_loop g (tool_registry eng) (length (dict_objs h)) (map int [0..<nat max_steps])
          (fst (dict_copy h initial_state)) (Some (start_node g)) [] = (Inl err, h')" for g err h'
    using that by (simp add: run_graph_unfold)
  have step: "(\<forall>err. get reg (node_tool n) = Inl err \<longrightarrow>
         run_loop gr reg st (i # rest) h1 (Some c) logs = (Inl err, h1)) \<and>
      (\<forall>f err h2. get reg (node_tool n) = Inr f \<and> f h1 st (node_config n) = (Inl err, h2) \<longrightarrow>
         run_loop gr reg st (i # rest) h1 (Some c) logs = (Inl err, h2)) \<and>
      (\<forall>f r h2 err. get reg (node_tool n) = Inr f \<and> f h1 st (node_config n) = (Inr r, h2) \<and>
           next_node_id gr c (store_after_step h2 st r) st = Inl err \<longrightarrow>
         run_loop gr reg st (i # rest) h1 (Some c) logs = (Inl err, store_after_step h2 st r))"
    if "nodes gr c = Some n" for n
    using that by (simp add: store_after_step_def deepcopy_def)
  have failed: "(\<exists>g c. graphs eng gid = Some g \<and> current_node r = Some c \<and> nodes g c = None) \<or>
      length (log r) = nat max_steps"
    if a: "run_graph eng h uuid gid initial_state max_steps = (Inr r, eng', h') \<and> status r = Failed"
    for r eng' h'
  proof -
    from a obtain g where g: "graphs eng gid = Some g"
      by (cases "graphs eng gid") (auto simp: run_graph_def get_graph_def)
    from a obtain stat cur logs where
      loop: "run_loop g (tool_registry eng) (length (dict_objs h)) (map int [0..<nat max_steps])
               (fst (dict_copy h initial_state)) (Some (start_node g)) [] = (Inr (stat, cur, logs), h')"
      and r: "status r = stat" "current_node r = cur" "log r = logs"
      by (auto simp: run_graph_unfold [OF g] split: prod.splits sum.splits)
    from run_loop_status [OF loop] a r
    have "(\<exists>c. cur = Some c \<and> nodes g c = None) \<or> length logs = nat max_steps" by simp
    with g r show ?thesis by auto
  qed
  from unknown raised step failed show ?thesis by blast
qed

theorem loop_errors_propagate_witness:
  "run_graph example_engine example_heap ''run-1'' ''nowhere'' 1 3 =
     (Inl (KeyError ''Graph 'nowhere' not found.''), example_engine, example_heap) \<and>
   run_graph example_engine example_heap ''run-1'' ''crash'' 1 3 =
     (Inl (Raised ''boom''), example_engine, fst (dict_copy example_heap 1)) \<and>
   run_loop refine_graph (tool_registry example_engine) 2 [0] (fst (dict_copy example_heap 1))
     (Some ''evaluate'') [] =
     (Inl (KeyError ''Tool 'evaluate_summary' is not registered.''), fst (dict_copy example_heap 1)) \<and>
   run_loop crash_graph (tool_registry example_engine) 2 [0] (fst (dict_copy example_heap 1))
     (Some ''a'') [] = (Inl (Raised ''boom''), fst (dict_copy example_heap 1)) \<and>
   run_loop loop_graph (tool_registry example_engine) 2 [0] (fst (dict_copy example_heap 0))
     (Some ''a'') [] =
     (Inl TypeError, store_after_step (fst (dict_copy example_heap 0)) 2 (Some [(''count'', VInt 1)])) \<and>
   (\<exists>r eng' h'. run_graph example_engine example_heap ''run-1'' ''dangling'' 1 3 = (Inr r, eng', h') \<and>
      status r = Failed \<and> current_node r = Some ''ghost'' \<and> nodes dangling_graph ''ghost'' = None)"
proof -
  let ?h0 = "fst (dict_copy example_heap 1)"
  let ?h1 = "fst (dict_copy example_heap 0)"
  let ?reg = "tool_registry example_engine"
  note unknown = loop_errors_propagate [THEN conjunct1, rule_format]
  note raised = loop_errors_propagate [THEN conjunct2, THEN conjunct1, rule_format]
  note step = loop_errors_propagate [THEN conjunct2, THEN conjunct2, THEN conjunct1, rule_format]
  note failed = loop_errors_propagate [THEN conjunct2, THEN conjunct2, THEN conjunct2, rule_format]
  have "graphs example_engine ''nowhere'' = None"
    by (simp add: example_engine_def)
  from unknown [OF this, of example_heap "''run-1''" 1 3]
  have c1: "run_graph example_engine example_heap ''run-1'' ''nowhere'' 1 3 =
     (Inl (KeyError ''Graph 'nowhere' not found.''), example_engine, example_heap)"
    by simp
  have "graphs example_engine ''crash'' = Some crash_graph \<and>
      run_loop crash_graph ?reg (length (dict_objs example_heap)) (map int [0..<nat 3]) ?h0
        (Some (start_node crash_graph)) [] = (Inl (Raised ''boom''), ?h0)"
    by (simp add: example_defs run_defs)
  from raised [OF this, of "''run-1''"]
  have c2: "run_graph example_engine example_heap ''run-1'' ''crash'' 1 3 =
     (Inl (Raised ''boom''), example_engine, ?h0)" .
  have n3: "nodes refine_graph ''evaluate'' =
       Some \<lparr>node_ident = ''evaluate'', node_tool = ''evaluate_summary'', node_config = 0\<rparr>"
    by (simp add: refine_graph_def)
  have "get ?reg (node_tool \<lparr>node_ident = ''evaluate'', node_tool = ''evaluate_summary'', node_config = 0\<rparr>) =
       Inl (KeyError ''Tool 'evaluate_summary' is not registered.'')"
    by (simp add: example_engine_def get_def quoted_def)
  from step [OF n3, THEN conjunct1, rule_format, OF this]
  have c3: "run_loop refine_graph ?reg 2 [0] ?h0 (Some ''evaluate'') [] =
     (Inl (KeyError ''Tool 'evaluate_summary' is not registered.''), ?h0)" .
  have n4: "nodes crash_graph ''a'' = Some \<lparr>node_ident = ''a'', node_tool = ''crash'', node_config = 0\<rparr>"
    by (simp add: crash_graph_def)
  have "get ?reg (node_tool \<lparr>node_ident = ''a'', node_tool = ''crash'', node_config = 0\<rparr>) = Inr crash_tool \<and>
      crash_tool ?h0 2 (node_config \<lparr>node_ident = ''a'', node_tool = ''crash'', node_config = 0\<rparr>) =
        (Inl (Raised ''boom''), ?h0)"
    by (simp add: example_engine_def get_def crash_tool_def)
  from step [OF n4, THEN conjunct2, THEN conjunct1, rule_format, OF this]
  have c4: "run_loop crash_graph ?reg 2 [0] ?h0 (Some ''a'') [] = (Inl (Raised ''boom''), ?h0)" .
  have n5: "nodes loop_graph ''a'' = Some \<lparr>node_ident = ''a'', node_tool = ''count'', node_config = 0\<rparr>"
    by (simp add: loop_graph_def)
  have "get ?reg (node_tool \<lparr>node_ident = ''a'', node_tool = ''count'', node_config = 0\<rparr>) = Inr count_tool \<and>
      count_tool ?h1 2 (node_config \<lparr>node_ident = ''a'', node_tool = ''count'', node_config = 0\<rparr>) =
        (Inr (Some [(''count'', VInt 1)]), ?h1) \<and>
      next_node_id loop_graph ''a'' (store_after_step ?h1 2 (Some [(''count'', VInt 1)])) 2 =
        Inl TypeError"
    by (simp add: example_defs run_defs store_after_step_def)
  from step [OF n5, THEN conjunct2, THEN conjunct2, rule_format, OF this]
  have c5: "run_loop loop_graph ?reg 2 [0] ?h1 (Some ''a'') [] =
     (Inl TypeError, store_after_step ?h1 2 (Some [(''count'', VInt 1)]))" .
  have "fst (run_graph example_engine example_heap ''run-1'' ''dangling'' 1 3) =
     Inr \<lparr>run_ident = ''run-1'', graph_id = ''dangling'', status = Failed,
          current_node = Some ''ghost'', state = 2,
          log = [\<lparr>step_index = 0, node_id = ''a'', tool = ''idle'', state_snapshot = 5\<rparr>]\<rparr>"
    by (simp add: example_defs run_defs)
  then obtain r eng' h' where
    run: "run_graph example_engine example_heap ''run-1'' ''dangling'' 1 3 = (Inr r, eng', h')"
    and r: "status r = Failed" "current_node r = Some ''ghost''" "length (log r) \<noteq> nat 3"
    by (cases "run_graph example_engine example_heap ''run-1'' ''dangling'' 1 3") auto
  have gd: "graphs example_engine ''dangling'' = Some dangling_graph"
    by (simp add: example_engine_def)
  from failed [of example_engine example_heap "''run-1''" "''dangling''" 1 3 r eng' h'] run r gd
  have "nodes dangling_graph ''ghost'' = None" by auto
  with run r have c6: "\<exists>r eng' h'. run_graph example_engine example_heap ''run-1'' ''dangling'' 1 3 =
      (Inr r, eng', h') \<and> status r = Failed \<and> current_node r = Some ''ghost'' \<and>
      nodes dangling_graph ''ghost'' = None"
    by blast
  from c1 c2 c3 c4 c5 c6 show ?thesis by blast
qed

text \<open>
  Not every failure inside the loop ends in a \<open>Run\<close> with status \<open>failed\<close>: on a known
  graph \<open>run_graph\<close> raises, and returns no \<open>Run\<close>, when the tool of the start node is not
  registered (a \<open>KeyError\<close>, as for an unknown graph), when the tool raises, and when the
  guard compares \<open>None\<close> with a number.
\<close>

theorem loop_errors_counterexample:
  "graphs example_engine ''refine'' = Some refine_graph \<and>
   run_graph example_engine example_heap ''run-1'' ''refine'' 1 3 =
     (Inl (KeyError ''Tool 'evaluate_summary' is not registered.''), example_engine,
      fst (dict_copy example_heap 1)) \<and>
   run_graph example_engine example_heap ''run-1'' ''crash'' 1 3 =
     (Inl (Raised ''boom''), example_engine, fst (dict_copy example_heap 1)) \<and>
   fst (run_graph example_engine example_heap ''run-1'' ''loop'' 0 3) = Inl TypeError"
  by (simp add: example_defs run_defs)

section \<open>Properties of the store\<close>

subsection \<open>Footprints, duplicates and views\<close>

lemma succs_VDict [simp]: "succs h (VDict a) = snd ` set (dict_at h a)"
  by (simp add: succs_def contents_def)

lemma succs_VList [simp]: "succs h (VList a) = set (list_at h a)"
  by (simp add: succs_def contents_def)

lemma footprint_allocated: "footprint h X \<Longrightarrow> v \<in> X \<Longrightarrow> allocated h v"
  by (simp add: footprint_def)

lemma footprint_closed: "footprint h X \<Longrightarrow> v \<in> X \<Longrightarrow> w \<in> succs h v \<Longrightarrow> is_ref w \<Longrightarrow> w \<in> X"
  by (auto simp: footprint_def)

lemma footprint_is_ref: "footprint h X \<Longrightarrow> v \<in> X \<Longrightarrow> is_ref v"
  by (cases v) (auto simp: footprint_def allocated_def is_ref_def)

lemma footprint_Un: "footprint h X \<Longrightarrow> footprint h Y \<Longrightarrow> footprint h (X \<union> Y)"
  by (auto simp: footprint_def)

lemma footprint_same:
  assumes S: "footprint h S" and same: "\<forall>v\<in>S. allocated h' v \<and> contents h' v = contents h v"
  shows "footprint h' S"
  using S same unfolding footprint_def succs_def by simp

lemma allocated_mono:
  "length (dict_objs h) \<le> length (dict_objs h') \<Longrightarrow> length (list_objs h) \<le> length (list_objs h') \<Longrightarrow>
   allocated h v \<Longrightarrow> allocated h' v"
  by (cases v) (auto simp: allocated_def)

lemma view_scalar: "\<not> is_ref v \<Longrightarrow> view d h' v = view d h v"
  by (cases v) (auto simp: is_ref_def)

lemma view_same:
  "footprint h S \<Longrightarrow> \<forall>v\<in>S. contents h' v = contents h v \<Longrightarrow> v \<in> S \<or> \<not> is_ref v \<Longrightarrow>
   view d h' v = view d h v"
proof (induction d arbitrary: v)
  case 0
  then show ?case by (cases v) auto
next
  case (Suc d)
  show ?case
  proof (cases "is_ref v")
    case False
    then show ?thesis by (rule view_scalar)
  next
    case True
    with Suc.prems have v: "v \<in> S" by blast
    with Suc.prems have c: "contents h' v = contents h v" by blast
    from v Suc.prems(1) have cl: "\<forall>w\<in>succs h v. w \<in> S \<or> \<not> is_ref w"
      using footprint_closed by blast
    show ?thesis
    proof (cases v)
      case (VList a)
      with c have l: "list_at h' a = list_at h a" by (simp add: contents_def)
      from cl VList have "\<forall>w\<in>set (list_at h a). view d h' w = view d h w"
        using Suc.IH [OF Suc.prems(1,2)] by simp
      with VList l show ?thesis by simp
    next
      case (VDict a)
      with c have l: "dict_at h' a = dict_at h a" by (simp add: contents_def)
      from cl VDict have "\<forall>p\<in>set (dict_at h a). view d h' (snd p) = view d h (snd p)"
        using Suc.IH [OF Suc.prems(1,2)] by simp
      with VDict l show ?thesis by (auto simp: case_prod_beta)
    qed (use True in \<open>auto simp: is_ref_def\<close>)
  qed
qed

lemma allocated_duplicate: "allocated h v \<Longrightarrow> allocated (duplicate h) v"
  by (cases v) (auto simp: allocated_def duplicate_def Let_def)

lemma contents_duplicate_old: "allocated h v \<Longrightarrow> contents (duplicate h) v = contents h v"
  by (cases v) (auto simp: allocated_def contents_def duplicate_def Let_def dict_at_def list_at_def nth_append)

lemma succs_duplicate_old: "allocated h v \<Longrightarrow> succs (duplicate h) v = succs h v"
  by (simp add: succs_def contents_duplicate_old)

lemma footprint_duplicate: "footprint h X \<Longrightarrow> footprint (duplicate h) X"
  by (simp add: footprint_def allocated_duplicate succs_duplicate_old)

lemma dict_at_duplicate_new:
  "a < length (dict_objs h) \<Longrightarrow>
   dict_at (duplicate h) (a + length (dict_objs h)) =
     shift_dict (length (dict_objs h)) (length (list_objs h)) (dict_at h a)"
  by (simp add: duplicate_def Let_def dict_at_def nth_append)

lemma list_at_duplicate_new:
  "a < length (list_objs h) \<Longrightarrow>
   list_at (duplicate h) (a + length (list_objs h)) =
     map (shift_val (length (dict_objs h)) (length (list_objs h))) (list_at h a)"
  by (simp add: duplicate_def Let_def list_at_def nth_append)

lemma view_shift:
  "footprint h X \<Longrightarrow> v \<in> X \<or> \<not> is_ref v \<Longrightarrow>
   view d (duplicate h) (shift_val (length (dict_objs h)) (length (list_objs h)) v) = view d h v"
proof (induction d arbitrary: v)
  case 0
  then show ?case by (cases v) (auto simp: shift_val_def)
next
  case (Suc d)
  show ?case
  proof (cases v)
    case (VList a)
    with Suc.prems have v: "VList a \<in> X" by (auto simp: is_ref_def)
    from footprint_allocated [OF Suc.prems(1) v] have a: "a < length (list_objs h)"
      by (simp add: allocated_def)
    have cl: "\<forall>w\<in>set (list_at h a). w \<in> X \<or> \<not> is_ref w"
      using footprint_closed [OF Suc.prems(1) v] by auto
    from cl have "\<forall>w\<in>set (list_at h a).
        view d (duplicate h) (shift_val (length (dict_objs h)) (length (list_objs h)) w) = view d h w"
      using Suc.IH [OF Suc.prems(1)] by blast
    with VList a show ?thesis
      by (simp add: shift_val_def list_at_duplicate_new)
  next
    case (VDict a)
    with Suc.prems have v: "VDict a \<in> X" by (auto simp: is_ref_def)
    from footprint_allocated [OF Suc.prems(1) v] have a: "a < length (dict_objs h)"
      by (simp add: allocated_def)
    have cl: "\<forall>p\<in>set (dict_at h a). snd p \<in> X \<or> \<not> is_ref (snd p)"
      using footprint_closed [OF Suc.prems(1) v] by auto
    from cl have "\<forall>p\<in>set (dict_at h a).
        view d (duplicate h) (shift_val (length (dict_objs h)) (length (list_objs h)) (snd p)) =
        view d h (snd p)"
      using Suc.IH [OF Suc.prems(1)] by blast
    with VDict a show ?thesis
      by (auto simp: shift_val_def dict_at_duplicate_new shift_dict_def case_prod_beta)
  qed (auto simp: shift_val_def)
qed

lemma snd_set_shift_dict: "snd ` set (shift_dict nd nl d) = shift_val nd nl ` snd ` set d"
  by (induction d) (auto simp: shift_dict_def)

lemma succs_duplicate_new:
  "allocated h v \<Longrightarrow>
   succs (duplicate h) (shift_val (length (dict_objs h)) (length (list_objs h)) v) =
     shift_val (length (dict_objs h)) (length (list_objs h)) ` succs h v"
  by (cases v)
    (simp_all add: allocated_def shift_val_def dict_at_duplicate_new list_at_duplicate_new
      snd_set_shift_dict)

lemma footprint_shift:
  assumes X: "footprint h X"
  shows "footprint (duplicate h) (shift_val (length (dict_objs h)) (length (list_objs h)) ` X)"
  unfolding footprint_def
proof (intro ballI conjI impI)
  let ?s = "shift_val (length (dict_objs h)) (length (list_objs h))"
  fix v' assume "v' \<in> ?s ` X"
  then obtain v where v: "v \<in> X" and v': "v' = ?s v" by blast
  from footprint_allocated [OF X v] have al: "allocated h v" .
  then show "allocated (duplicate h) v'"
    unfolding v' by (cases v) (auto simp: allocated_def shift_val_def duplicate_def Let_def)
  fix w' assume w': "w' \<in> succs (duplicate h) v'" and r: "is_ref w'"
  from al w' have "w' \<in> ?s ` succs h v"
    unfolding v' by (simp add: succs_duplicate_new)
  then obtain w where w: "w \<in> succs h v" and w'': "w' = ?s w" by blast
  from r w'' have "is_ref w" by (cases w) (auto simp: is_ref_def shift_val_def)
  from footprint_closed [OF X v w this] show "w' \<in> ?s ` X" unfolding w'' by blast
qed

lemma shift_not_allocated:
  "is_ref v \<Longrightarrow> \<not> allocated h (shift_val (length (dict_objs h)) (length (list_objs h)) v)"
  by (cases v) (auto simp: is_ref_def allocated_def shift_val_def)

lemma set_update_subset: "set (AList.update k v d) \<subseteq> insert (k, v) (set d)"
  by (induction d) auto

lemma set_merge_items: "snd ` set (merge_items d u) \<subseteq> snd ` set d \<union> snd ` set u"
proof (induction u arbitrary: d)
  case Nil
  then show ?case by (simp add: merge_items_def)
next
  case (Cons p u)
  obtain k v where p: "p = (k, v)" by (cases p)
  have "snd ` set (merge_items (AList.update k v d) u) \<subseteq> snd ` set (AList.update k v d) \<union> snd ` set u"
    by (rule Cons.IH)
  moreover have "snd ` set (AList.update k v d) \<subseteq> insert v (snd ` set d)"
    using set_update_subset [of k v d] by force
  ultimately show ?case
    unfolding p by (auto simp: merge_items_def)
qed

lemma allocated_dict_update [simp]: "allocated (dict_update h a u) v = allocated h v"
  by (cases v) (simp_all add: allocated_def dict_update_def)

lemma contents_dict_update_other: "v \<noteq> VDict a \<Longrightarrow> contents (dict_update h a u) v = contents h v"
  by (cases v) (auto simp: contents_def dict_update_def dict_at_def list_at_def)

lemma footprint_dict_update:
  assumes X: "footprint h X" and st: "VDict a \<in> X"
    and u: "\<forall>w\<in>snd ` set u. is_ref w \<longrightarrow> w \<in> X"
  shows "footprint (dict_update h a u) X"
  unfolding footprint_def
proof (intro ballI conjI impI)
  fix v assume v: "v \<in> X"
  from footprint_allocated [OF X v] show "allocated (dict_update h a u) v" by simp
  fix w assume w: "w \<in> succs (dict_update h a u) v" and r: "is_ref w"
  show "w \<in> X"
  proof (cases "v = VDict a")
    case True
    from footprint_allocated [OF X st] have "a < length (dict_objs h)" by (simp add: allocated_def)
    with w True have "w \<in> snd ` set (merge_items (dict_at h a) u)"
      by (simp add: dict_at_dict_update)
    with set_merge_items have "w \<in> snd ` set (dict_at h a) \<or> w \<in> snd ` set u" by blast
    then show ?thesis
    proof
      assume "w \<in> snd ` set (dict_at h a)"
      then have "w \<in> succs h (VDict a)" by simp
      from footprint_closed [OF X st this r] show ?thesis .
    next
      assume "w \<in> snd ` set u"
      with u r show ?thesis by blast
    qed
  next
    case False
    with w have "w \<in> succs h v" by (simp add: succs_def contents_dict_update_other)
    from footprint_closed [OF X v this r] show ?thesis .
  qed
qed

subsection \<open>The store along the step loop\<close>

text \<open>One iteration of the loop body, from the call of the tool to the snapshot.\<close>

lemma step_footprint:
  assumes safe: "tool_safe f" and X: "footprint h X" and st: "VDict st \<in> X"
    and cfg: "VDict cfg \<in> X" and f: "f h st cfg = (Inr r, h1)"
  shows "\<exists>X' S. footprint (store_after_step h1 st r) X' \<and> X \<subseteq> X' \<and>
           (\<forall>v\<in>X'. v \<in> X \<or> \<not> allocated h v) \<and>
           (\<forall>v. allocated h v \<longrightarrow> allocated (store_after_step h1 st r) v) \<and>
           (\<forall>v. allocated h v \<and> v \<notin> X \<longrightarrow> contents (store_after_step h1 st r) v = contents h v) \<and>
           footprint (store_after_step h1 st r) S \<and> VDict (st + length (dict_objs h1)) \<in> S \<and>
           S \<inter> X' = {} \<and> (\<forall>v\<in>S. \<not> allocated h v) \<and>
           (\<forall>d. view d (store_after_step h1 st r) (VDict (st + length (dict_objs h1))) =
                view d (store_after_step h1 st r) (VDict st))"
proof -
  let ?u = "case r of None \<Rightarrow> [] | Some u \<Rightarrow> u"
  let ?X = "X \<union> fresh h h1"
  let ?h2 = "dict_update h1 st ?u"
  let ?h3 = "store_after_step h1 st r"
  let ?s = "shift_val (length (dict_objs ?h2)) (length (list_objs ?h2))"
  have h3: "?h3 = duplicate ?h2" by (simp add: store_after_step_def deepcopy_def)
  from safe X st cfg f
  have grow: "length (dict_objs h) \<le> length (dict_objs h1)" "length (list_objs h) \<le> length (list_objs h1)"
    and frame: "\<forall>v. allocated h v \<and> v \<notin> X \<longrightarrow> contents h1 v = contents h v"
    and X1: "footprint h1 ?X"
    and ret: "\<forall>u. Inr r = Inr (Some u) \<longrightarrow> (\<forall>w\<in>snd ` set u. is_ref w \<longrightarrow> w \<in> ?X)"
    unfolding tool_safe_def by blast+
  from ret have u: "\<forall>w\<in>snd ` set ?u. is_ref w \<longrightarrow> w \<in> ?X"
    by (cases r) auto
  from st have st': "VDict st \<in> ?X" by simp
  have X2: "footprint ?h2 ?X" by (rule footprint_dict_update [OF X1 st' u])
  have X3: "footprint ?h3 ?X" unfolding h3 by (rule footprint_duplicate [OF X2])
  have mono: "allocated ?h3 v" if "allocated h v" for v
  proof -
    from that grow have "allocated h1 v" by (cases v) (auto simp: allocated_def)
    then have "allocated ?h2 v" by simp
    then show ?thesis unfolding h3 by (rule allocated_duplicate)
  qed
  have keep: "contents ?h3 v = contents h v" if "allocated h v" "v \<notin> X" for v
  proof -
    from that grow have a1: "allocated h1 v" by (cases v) (auto simp: allocated_def)
    from that st have ne: "v \<noteq> VDict st" by auto
    have "contents ?h3 v = contents ?h2 v"
      unfolding h3 using a1 by (simp add: contents_duplicate_old)
    also have "\<dots> = contents h1 v" using ne by (rule contents_dict_update_other)
    also have "\<dots> = contents h v" using frame that by blast
    finally show ?thesis .
  qed
  have S: "footprint ?h3 (?s ` ?X)" unfolding h3 by (rule footprint_shift [OF X2])
  have snap: "VDict (st + length (dict_objs h1)) \<in> ?s ` ?X"
  proof -
    have "?s (VDict st) = VDict (st + length (dict_objs h1))" by (simp add: shift_val_def)
    with st' show ?thesis by (intro image_eqI [of _ ?s "VDict st"]) simp_all
  qed
  have nal2: "\<not> allocated ?h2 v" if "v \<in> ?s ` ?X" for v
  proof -
    from that obtain w where w: "w \<in> ?X" and v: "v = ?s w" by blast
    from footprint_is_ref [OF X2 w] show ?thesis unfolding v by (rule shift_not_allocated)
  qed
  have disj: "?s ` ?X \<inter> ?X = {}"
    using nal2 footprint_allocated [OF X2] by blast
  have nal: "\<not> allocated h v" if "v \<in> ?s ` ?X" for v
  proof
    assume "allocated h v"
    with grow have "allocated h1 v" by (cases v) (auto simp: allocated_def)
    then have "allocated ?h2 v" by simp
    with nal2 [OF that] show False by simp
  qed
  have eq: "view d ?h3 (VDict (st + length (dict_objs h1))) = view d ?h3 (VDict st)" for d
  proof -
    have "view d ?h3 (?s (VDict st)) = view d ?h2 (VDict st)"
      unfolding h3 using st' by (intro view_shift [OF X2]) simp
    moreover have "view d ?h3 (VDict st) = view d ?h2 (VDict st)"
      unfolding h3 using st' footprint_allocated [OF X2]
      by (intro view_same [OF X2]) (simp_all add: contents_duplicate_old)
    ultimately show ?thesis by (simp add: shift_val_def)
  qed
  have old: "\<forall>v\<in>?X. v \<in> X \<or> \<not> allocated h v" by (auto simp: fresh_def)
  show ?thesis
  proof (intro exI conjI)
    show "footprint ?h3 ?X" by (rule X3)
    show "X \<subseteq> ?X" by simp
    show "\<forall>v\<in>?X. v \<in> X \<or> \<not> allocated h v" by (rule old)
    show "\<forall>v. allocated h v \<longrightarrow> allocated ?h3 v" using mono by simp
    show "\<forall>v. allocated h v \<and> v \<notin> X \<longrightarrow> contents ?h3 v = contents h v" using keep by simp
    show "footprint ?h3 (?s ` ?X)" by (rule S)
    show "VDict (st + length (dict_objs h1)) \<in> ?s ` ?X" by (rule snap)
    show "?s ` ?X \<inter> ?X = {}" by (rule disj)
    show "\<forall>v\<in>?s ` ?X. \<not> allocated h v" using nal by simp
    show "\<forall>d. view d ?h3 (VDict (st + length (dict_objs h1))) = view d ?h3 (VDict st)"
      using eq by simp
  qed
qed

lemma raise_footprint:
  assumes safe: "tool_safe f" and X: "footprint h X" and st: "VDict st \<in> X"
    and cfg: "VDict cfg \<in> X" and f: "f h st cfg = (res, h1)"
  shows "footprint h1 (X \<union> fresh h h1) \<and> (\<forall>v. allocated h v \<longrightarrow> allocated h1 v) \<and>
         (\<forall>v. allocated h v \<and> v \<notin> X \<longrightarrow> contents h1 v = contents h v)"
proof -
  from safe X st cfg f
  have grow: "length (dict_objs h) \<le> length (dict_objs h1)" "length (list_objs h) \<le> length (list_objs h1)"
    and frame: "\<forall>v. allocated h v \<and> v \<notin> X \<longrightarrow> contents h1 v = contents h v"
    and X1: "footprint h1 (X \<union> fresh h h1)"
    unfolding tool_safe_def by blast+
  from grow have "\<forall>v. allocated h v \<longrightarrow> allocated h1 v"
    using allocated_mono by blast
  with frame X1 show ?thesis by simp
qed

lemma run_loop_Cons_elim:
  assumes run: "run_loop g reg st (i # rest) h cur logs = (res, h')"
  obtains (stop) stat where "res = Inr (stat, cur, logs)" and "h' = h"
    | (unregistered) e where "res = Inl e" and "h' = h"
    | (raised) c n f e where "nodes g c = Some n" and "get reg (node_tool n) = Inr f"
        and "f h st (node_config n) = (Inl e, h')" and "res = Inl e"
    | (guard) c n f r h1 e where "nodes g c = Some n" and "get reg (node_tool n) = Inr f"
        and "f h st (node_config n) = (Inr r, h1)" and "h' = store_after_step h1 st r"
        and "res = Inl e"
    | (continue) c n f r h1 nxt where "nodes g c = Some n" and "get reg (node_tool n) = Inr f"
        and "f h st (node_config n) = (Inr r, h1)"
        and "run_loop g reg st rest (store_after_step h1 st r) nxt
               (logs @ [\<lparr>step_index = i, node_id = node_ident n, tool = node_tool n,
                         state_snapshot = st + length (dict_objs h1)\<rparr>]) = (res, h')"
proof (cases cur)
  case None
  with run stop show ?thesis by auto
next
  case (Some c)
  show ?thesis
  proof (cases "nodes g c")
    case None
    with run Some stop show ?thesis by auto
  next
    case n: (Some n)
    show ?thesis
    proof (cases "get reg (node_tool n)")
      case (Inl e)
      with run Some n unregistered show ?thesis by auto
    next
      case f: (Inr f)
      obtain r0 h1 where call: "f h st (node_config n) = (r0, h1)"
        by (cases "f h st (node_config n)")
      show ?thesis
      proof (cases r0)
        case (Inl e)
        with run Some n f call raised show ?thesis by auto
      next
        case r: (Inr r)
        show ?thesis
        proof (cases "next_node_id g c (store_after_step h1 st r) st")
          case (Inl e)
          with run Some n f call r have "res = Inl e" "h' = store_after_step h1 st r"
            by (simp_all add: store_after_step_def deepcopy_def)
          with n f call r guard show ?thesis by simp
        next
          case (Inr nxt)
          from run_loop_step [OF n f call [unfolded r] Inr, of i rest logs] run Some
          show ?thesis using continue [OF n f call [unfolded r]] by simp
        qed
      qed
    qed
  qed
qed

lemma run_loop_frame:
  assumes safe: "tools_safe g reg"
  shows "loop_inv g st h X \<Longrightarrow> run_loop g reg st idxs h cur logs = (res, h') \<Longrightarrow>
     (\<forall>v. allocated h v \<longrightarrow> allocated h' v) \<and>
     (\<forall>v. allocated h v \<and> v \<notin> X \<longrightarrow> contents h' v = contents h v) \<and>
     (\<exists>X'. loop_inv g st h' X' \<and> (\<forall>v\<in>X'. v \<in> X \<or> \<not> allocated h v))"
proof (induction idxs arbitrary: h cur logs X)
  case Nil
  then have "h' = h" by simp
  with Nil.prems(1) show ?case by auto
next
  case (Cons i rest)
  from Cons.prems(1) have X: "footprint h X" and st: "VDict st \<in> X"
    and cfgs: "\<forall>c n. nodes g c = Some n \<longrightarrow> VDict (node_config n) \<in> X"
    by (simp_all add: loop_inv_def)
  from Cons.prems(2) show ?case
  proof (cases rule: run_loop_Cons_elim)
    case (stop stat)
    with Cons.prems(1) show ?thesis by auto
  next
    case (unregistered e)
    with Cons.prems(1) show ?thesis by auto
  next
    case (raised c n f e)
    from safe raised have f: "tool_safe f" by (auto simp: tools_safe_def)
    from cfgs raised have cfg: "VDict (node_config n) \<in> X" by blast
    from raise_footprint [OF f X st cfg raised(3)]
    have X1: "footprint h' (X \<union> fresh h h')" and rest: "\<forall>v. allocated h v \<longrightarrow> allocated h' v"
      "\<forall>v. allocated h v \<and> v \<notin> X \<longrightarrow> contents h' v = contents h v"
      by simp_all
    from X1 st cfgs have "loop_inv g st h' (X \<union> fresh h h')" by (simp add: loop_inv_def)
    moreover have "\<forall>v\<in>X \<union> fresh h h'. v \<in> X \<or> \<not> allocated h v" by (auto simp: fresh_def)
    ultimately show ?thesis using rest by blast
  next
    case (guard c n f r h1 e)
    from safe guard have f: "tool_safe f" by (auto simp: tools_safe_def)
    from cfgs guard have cfg: "VDict (node_config n) \<in> X" by blast
    from step_footprint [OF f X st cfg guard(3)] guard(4)
    obtain X' where X': "footprint h' X'" "X \<subseteq> X'" "\<forall>v\<in>X'. v \<in> X \<or> \<not> allocated h v"
      and rest: "\<forall>v. allocated h v \<longrightarrow> allocated h' v"
        "\<forall>v. allocated h v \<and> v \<notin> X \<longrightarrow> contents h' v = contents h v"
      by auto
    from X' st cfgs have "loop_inv g st h' X'" by (auto simp: loop_inv_def)
    with X'(3) rest show ?thesis by blast
  next
    case (continue c n f r h1 nxt)
    let ?h3 = "store_after_step h1 st r"
    from safe continue have f: "tool_safe f" by (auto simp: tools_safe_def)
    from cfgs continue have cfg: "VDict (node_config n) \<in> X" by blast
    from step_footprint [OF f X st cfg continue(3)]
    obtain X1 where X1: "footprint ?h3 X1" "X \<subseteq> X1" "\<forall>v\<in>X1. v \<in> X \<or> \<not> allocated h v"
      and mono: "\<forall>v. allocated h v \<longrightarrow> allocated ?h3 v"
      and keep: "\<forall>v. allocated h v \<and> v \<notin> X \<longrightarrow> contents ?h3 v = contents h v"
      by auto
    from X1 st cfgs have inv: "loop_inv g st ?h3 X1" by (auto simp: loop_inv_def)
    from Cons.IH [OF inv continue(4)]
    obtain X' where mono': "\<forall>v. allocated ?h3 v \<longrightarrow> allocated h' v"
      and keep': "\<forall>v. allocated ?h3 v \<and> v \<notin> X1 \<longrightarrow> contents h' v = contents ?h3 v"
      and X': "loop_inv g st h' X'" "\<forall>v\<in>X'. v \<in> X1 \<or> \<not> allocated ?h3 v"
      by auto
    have a: "\<forall>v. allocated h v \<longrightarrow> allocated h' v" using mono mono' by blast
    have b: "\<forall>v. allocated h v \<and> v \<notin> X \<longrightarrow> contents h' v = contents h v"
    proof (intro allI impI)
      fix v assume v: "allocated h v \<and> v \<notin> X"
      with X1(3) have "v \<notin> X1" by blast
      moreover from v mono have "allocated ?h3 v" by blast
      ultimately have "contents h' v = contents ?h3 v" using keep' by blast
      with keep v show "contents h' v = contents h v" by simp
    qed
    have c: "\<forall>v\<in>X'. v \<in> X \<or> \<not> allocated h v"
      using X'(2) X1(3) mono by blast
    from a b c X'(1) show ?thesis by blast
  qed
qed

lemma run_loop_snapshots:
  assumes safe: "tools_safe g reg"
  shows "loop_inv g st h X \<Longrightarrow>
     run_loop g reg st idxs h cur logs = (Inr (stat, cur', logs'), h') \<Longrightarrow>
     \<exists>more X' S. logs' = logs @ more \<and> loop_inv g st h' X' \<and>
        (\<forall>v\<in>X'. v \<in> X \<or> \<not> allocated h v) \<and>
        footprint h' S \<and> S \<inter> X' = {} \<and> (\<forall>v\<in>S. \<not> allocated h v) \<and>
        (\<forall>e\<in>set more. VDict (state_snapshot e) \<in> S) \<and>
        (more \<noteq> [] \<and> length more = length idxs \<longrightarrow>
           (\<forall>d. view d h' (VDict (state_snapshot (last more))) = view d h' (VDict st)))"
proof (induction idxs arbitrary: h cur logs X)
  case Nil
  then have "logs' = logs @ []" "h' = h" by simp_all
  moreover have "footprint h {}" by (simp add: footprint_def)
  ultimately show ?case using Nil.prems(1) by (intro exI [of _ "[]"] exI [of _ X] exI [of _ "{}"]) simp
next
  case (Cons i rest)
  from Cons.prems(1) have X: "footprint h X" and st: "VDict st \<in> X"
    and cfgs: "\<forall>c n. nodes g c = Some n \<longrightarrow> VDict (node_config n) \<in> X"
    by (simp_all add: loop_inv_def)
  from Cons.prems(2) show ?case
  proof (cases rule: run_loop_Cons_elim)
    case (stop stat0)
    then have "logs' = logs @ []" "h' = h" by simp_all
    moreover have "footprint h {}" by (simp add: footprint_def)
    ultimately show ?thesis using Cons.prems(1)
      by (intro exI [of _ "[]"] exI [of _ X] exI [of _ "{}"]) simp
  next
    case (unregistered e)
    then show ?thesis by simp
  next
    case (raised c n f e)
    then show ?thesis by simp
  next
    case (guard c n f r h1 e)
    then show ?thesis by simp
  next
    case (continue c n f r h1 nxt)
    let ?h3 = "store_after_step h1 st r"
    let ?e = "\<lparr>step_index = i, node_id = node_ident n, tool = node_tool n,
               state_snapshot = st + length (dict_objs h1)\<rparr>"
    from safe continue have f: "tool_safe f" by (auto simp: tools_safe_def)
    from cfgs continue have cfg: "VDict (node_config n) \<in> X" by blast
    from step_footprint [OF f X st cfg continue(3)]
    obtain X1 S1 where X1: "footprint ?h3 X1" "X \<subseteq> X1" "\<forall>v\<in>X1. v \<in> X \<or> \<not> allocated h v"
      and mono: "\<forall>v. allocated h v \<longrightarrow> allocated ?h3 v"
      and S1: "footprint ?h3 S1" "VDict (st + length (dict_objs h1)) \<in> S1" "S1 \<inter> X1 = {}"
        "\<forall>v\<in>S1. \<not> allocated h v"
      and eq: "\<forall>d. view d ?h3 (VDict (st + length (dict_objs h1))) = view d ?h3 (VDict st)"
      by blast
    from X1 st cfgs have inv: "loop_inv g st ?h3 X1" by (auto simp: loop_inv_def)
    from Cons.IH [OF inv continue(4)]
    obtain more' X' S' where logs': "logs' = (logs @ [?e]) @ more'"
      and X': "loop_inv g st h' X'" "\<forall>v\<in>X'. v \<in> X1 \<or> \<not> allocated ?h3 v"
      and S': "footprint h' S'" "S' \<inter> X' = {}" "\<forall>v\<in>S'. \<not> allocated ?h3 v"
        "\<forall>e\<in>set more'. VDict (state_snapshot e) \<in> S'"
      and last: "more' \<noteq> [] \<and> length more' = length rest \<longrightarrow>
           (\<forall>d. view d h' (VDict (state_snapshot (last more'))) = view d h' (VDict st))"
      by blast
    from run_loop_frame [OF safe inv continue(4)]
    have mono': "\<forall>v. allocated ?h3 v \<longrightarrow> allocated h' v"
      and keep': "\<forall>v. allocated ?h3 v \<and> v \<notin> X1 \<longrightarrow> contents h' v = contents ?h3 v"
      by simp_all
    have S1al: "\<forall>v\<in>S1. allocated ?h3 v" using footprint_allocated [OF S1(1)] by blast
    have "\<forall>v\<in>S1. allocated h' v \<and> contents h' v = contents ?h3 v"
      using S1al S1(3) mono' keep' by blast
    then have S1': "footprint h' S1" by (rule footprint_same [OF S1(1)])
    have a: "logs' = logs @ (?e # more')" using logs' by simp
    have b: "\<forall>v\<in>X'. v \<in> X \<or> \<not> allocated h v" using X'(2) X1(3) mono by blast
    have c: "footprint h' (S1 \<union> S')" by (rule footprint_Un [OF S1' S'(1)])
    have d: "(S1 \<union> S') \<inter> X' = {}" using S'(2) S1(3) S1al X'(2) by blast
    have e: "\<forall>v\<in>S1 \<union> S'. \<not> allocated h v" using S1(4) S'(3) mono by blast
    have f: "\<forall>x\<in>set (?e # more'). VDict (state_snapshot x) \<in> S1 \<union> S'"
      using S1(2) S'(4) by simp
    have g: "\<forall>d. view d h' (VDict (state_snapshot (last (?e # more')))) = view d h' (VDict st)"
      if len: "length (?e # more') = length (i # rest)"
    proof (cases "more' = []")
      case True
      with len have "rest = []" by simp
      with continue(4) have "h' = ?h3" by simp
      with True eq show ?thesis by simp
    next
      case False
      with len last show ?thesis by simp
    qed
    show ?thesis
    proof (intro exI conjI)
      show "logs' = logs @ (?e # more')" by (rule a)
      show "loop_inv g st h' X'" by (rule X'(1))
      show "\<forall>v\<in>X'. v \<in> X \<or> \<not> allocated h v" by (rule b)
      show "footprint h' (S1 \<union> S')" by (rule c)
      show "(S1 \<union> S') \<inter> X' = {}" by (rule d)
      show "\<forall>v\<in>S1 \<union> S'. \<not> allocated h v" by (rule e)
      show "\<forall>x\<in>set (?e # more'). VDict (state_snapshot x) \<in> S1 \<union> S'" by (rule f)
      show "?e # more' \<noteq> [] \<and> length (?e # more') = length (i # rest) \<longrightarrow>
           (\<forall>d. view d h' (VDict (state_snapshot (last (?e # more')))) = view d h' (VDict st))"
        using g by blast
    qed
  qed
qed

text \<open>A run with a larger budget continues the run with the smaller one, when the
  smaller one ran out of budget, and repeats its result otherwise.\<close>

lemma run_loop_append:
  "run_loop g reg st (xs @ ys) h cur logs =
     (case run_loop g reg st xs h cur logs of
        (Inl e, h') \<Rightarrow> (Inl e, h')
      | (Inr (stat, cur', logs'), h') \<Rightarrow>
          if stat = Failed \<and> length logs' = length logs + length xs
          then run_loop g reg st ys h' cur' logs'
          else (Inr (stat, cur', logs'), h'))"
proof (induction xs arbitrary: h cur logs)
  case Nil
  then show ?case by simp
next
  case (Cons i rest)
  show ?case
    by (simp add: Cons.IH Let_def split: option.splits sum.splits prod.splits)
qed

lemma run_loop_prefix:
  assumes full: "run_loop g reg st (xs @ ys) h cur logs0 = (Inr (stat, cur', logs), h')"
    and len: "length logs0 + length xs \<le> length logs"
  shows "\<exists>c l hi. run_loop g reg st xs h cur logs0 = (Inr (Failed, c, l), hi) \<and>
           length l = length logs0 + length xs \<and>
           run_loop g reg st ys hi c l = (Inr (stat, cur', logs), h')"
proof -
  obtain lres hi where trunc: "run_loop g reg st xs h cur logs0 = (lres, hi)"
    by (cases "run_loop g reg st xs h cur logs0")
  note app = run_loop_append [of g reg st xs ys h cur logs0, unfolded trunc]
  note eq = full [unfolded app]
  from eq obtain s c l where lres: "lres = Inr (s, c, l)"
    by (cases lres) auto
  from run_loop_status [OF trunc [unfolded lres]]
  have bound: "length l \<le> length logs0 + length xs"
    and comp: "s = Completed \<longrightarrow> length l < length logs0 + length xs"
    and nr: "s \<noteq> Running"
    by simp_all
  have sl: "s = Failed \<and> length l = length logs0 + length xs"
  proof (rule ccontr)
    assume n: "\<not> (s = Failed \<and> length l = length logs0 + length xs)"
    with eq lres have "logs = l" by (auto split: if_splits)
    with len bound have "length l = length logs0 + length xs" by simp
    with comp nr n show False by (cases s) auto
  qed
  with eq lres have "run_loop g reg st ys hi c l = (Inr (stat, cur', logs), h')"
    by simp
  with trunc lres sl show ?thesis by simp
qed

lemma loop_inv_dict_copy:
  assumes X: "footprint h X"
    and init: "\<forall>w\<in>succs h (VDict initial_state). is_ref w \<longrightarrow> w \<in> X"
    and cfgs: "\<forall>c n. nodes g c = Some n \<longrightarrow> VDict (node_config n) \<in> X"
  shows "loop_inv g (length (dict_objs h)) (fst (dict_copy h initial_state))
           (insert (VDict (length (dict_objs h))) X)"
proof -
  let ?h0 = "fst (dict_copy h initial_state)"
  let ?st = "length (dict_objs h)"
  have old: "allocated ?h0 v \<and> contents ?h0 v = contents h v" if "allocated h v" for v
    using that
    by (cases v) (auto simp: allocated_def contents_def dict_copy_def dict_at_def list_at_def nth_append)
  have new: "allocated ?h0 (VDict ?st)" "succs ?h0 (VDict ?st) = succs h (VDict initial_state)"
    by (simp_all add: allocated_def dict_copy_def dict_at_def)
  have "footprint ?h0 (insert (VDict ?st) X)"
    unfolding footprint_def
  proof (intro ballI conjI impI)
    fix v assume v: "v \<in> insert (VDict ?st) X"
    show "allocated ?h0 v"
      using v new(1) old footprint_allocated [OF X] by blast
    fix w assume w: "w \<in> succs ?h0 v" and r: "is_ref w"
    show "w \<in> insert (VDict ?st) X"
    proof (cases "v = VDict ?st")
      case True
      with w new(2) have "w \<in> succs h (VDict initial_state)" by (simp only:)
      with init r show ?thesis by blast
    next
      case False
      with v have vX: "v \<in> X" by simp
      with old footprint_allocated [OF X] w have "w \<in> succs h v" by (simp add: succs_def)
      from footprint_closed [OF X vX this r] show ?thesis by simp
    qed
  qed
  with cfgs show ?thesis by (simp add: loop_inv_def)
qed

lemma run_graph_store:
  assumes g: "graphs eng gid = Some g"
    and run: "run_graph eng h uuid gid initial_state max_steps = (res, eng', h')"
  shows "\<exists>lres. run_loop g (tool_registry eng) (length (dict_objs h)) (map int [0..<nat max_steps])
           (fst (dict_copy h initial_state)) (Some (start_node g)) [] = (lres, h') \<and>
         (\<forall>r. res = Inr r \<longrightarrow> state r = length (dict_objs h) \<and>
            lres = Inr (status r, current_node r, log r))"
  using run by (auto simp: run_graph_unfold [OF g] split: prod.splits sum.splits)

subsection \<open>The example tools keep the contract\<close>

lemma tool_safe_pure:
  assumes same: "\<And>h st cfg. snd (f h st cfg) = h"
    and scalars: "\<And>h st cfg u w. fst (f h st cfg) = Inr (Some u) \<Longrightarrow> w \<in> snd ` set u \<Longrightarrow> \<not> is_ref w"
  shows "tool_safe f"
  unfolding tool_safe_def
proof (intro allI impI)
  fix h st cfg X res h'
  assume a: "footprint h X \<and> VDict st \<in> X \<and> VDict cfg \<in> X \<and> f h st cfg = (res, h')"
  with same [of h st cfg] have h': "h' = h" by simp
  have "fresh h h = {}" by (simp add: fresh_def)
  moreover from a scalars [of h st cfg]
  have "\<forall>u. res = Inr (Some u) \<longrightarrow> (\<forall>w\<in>snd ` set u. \<not> is_ref w)" by auto
  ultimately show "length (dict_objs h) \<le> length (dict_objs h') \<and> length (list_objs h) \<le> length (list_objs h') \<and>
          (\<forall>v. allocated h v \<and> v \<notin> X \<longrightarrow> contents h' v = contents h v) \<and>
          footprint h' (X \<union> fresh h h') \<and>
          (\<forall>u. res = Inr (Some u) \<longrightarrow> (\<forall>w\<in>snd ` set u. is_ref w \<longrightarrow> w \<in> X \<union> fresh h h'))"
    using a unfolding h' by simp
qed

lemma tool_safe_idle: "tool_safe idle_tool"
  by (rule tool_safe_pure) (simp_all add: idle_tool_def)

lemma tool_safe_count: "tool_safe count_tool"
  by (rule tool_safe_pure) (auto simp: count_tool_def is_ref_def)

lemma tool_safe_crash: "tool_safe crash_tool"
  by (rule tool_safe_pure) (simp_all add: crash_tool_def)

lemma tool_safe_append: "tool_safe append_tool"
  unfolding tool_safe_def
proof (intro allI impI)
  fix h st cfg X res h'
  assume a: "footprint h X \<and> VDict st \<in> X \<and> VDict cfg \<in> X \<and> append_tool h st cfg = (res, h')"
  then have X: "footprint h X" and st: "VDict st \<in> X"
    and call: "append_tool h st cfg = (res, h')" by simp_all
  show "length (dict_objs h) \<le> length (dict_objs h') \<and> length (list_objs h) \<le> length (list_objs h') \<and>
          (\<forall>v. allocated h v \<and> v \<notin> X \<longrightarrow> contents h' v = contents h v) \<and>
          footprint h' (X \<union> fresh h h') \<and>
          (\<forall>u. res = Inr (Some u) \<longrightarrow> (\<forall>w\<in>snd ` set u. is_ref w \<longrightarrow> w \<in> X \<union> fresh h h'))"
  proof (cases "\<exists>a. dict_get h st ''items'' = VList a")
    case False
    with call have "h' = h" "res = Inl (Raised ''items is not a list'')"
      by (auto simp: append_tool_def split: pyval.splits)
    moreover have "fresh h h = {}" by (simp add: fresh_def)
    ultimately show ?thesis using X by simp
  next
    case True
    then obtain a where a: "dict_get h st ''items'' = VList a" by blast
    with call have h': "h' = h\<lparr>list_objs := (list_objs h)[a := list_at h a @ [VInt 1]]\<rparr>"
      and res: "res = Inr None"
      by (simp_all add: append_tool_def)
    from a have "VList a \<in> succs h (VDict st)"
      by (auto simp: dict_get_def split: option.splits dest: map_of_SomeD intro: rev_image_eqI)
    from footprint_closed [OF X st this] have aX: "VList a \<in> X" by (simp add: is_ref_def)
    from footprint_allocated [OF X aX] have al: "a < length (list_objs h)" by (simp add: allocated_def)
    have alloc: "allocated h' v = allocated h v" for v
      unfolding h' by (cases v) (simp_all add: allocated_def)
    have other: "contents h' v = contents h v" if "v \<noteq> VList a" for v
      using that unfolding h' by (cases v) (auto simp: contents_def list_at_def dict_at_def)
    have this_one: "succs h' (VList a) = insert (VInt 1) (succs h (VList a))"
      unfolding h' using al by (simp add: list_at_def)
    have fr: "fresh h h' = {}" by (simp add: fresh_def alloc)
    have fp: "footprint h' X"
      unfolding footprint_def
    proof (intro ballI conjI impI)
      fix v assume v: "v \<in> X"
      from footprint_allocated [OF X v] show "allocated h' v" by (simp add: alloc)
      fix w assume w: "w \<in> succs h' v" and r: "is_ref w"
      have "w \<in> succs h v"
      proof (cases "v = VList a")
        case True
        with w this_one r show ?thesis by (auto simp: is_ref_def)
      next
        case False
        with w other show ?thesis by (simp add: succs_def)
      qed
      from footprint_closed [OF X v this r] show "w \<in> X" .
    qed
    have frame: "\<forall>v. allocated h v \<and> v \<notin> X \<longrightarrow> contents h' v = contents h v"
    proof (intro allI impI)
      fix v assume "allocated h v \<and> v \<notin> X"
      with aX have "v \<noteq> VList a" by auto
      then show "contents h' v = contents h v" by (rule other)
    qed
    have len: "length (dict_objs h') = length (dict_objs h)" "length (list_objs h') = length (list_objs h)"
      unfolding h' by simp_all
    from fp frame fr res len show ?thesis by simp
  qed
qed

lemma tool_safe_alias: "tool_safe alias_tool"
  unfolding tool_safe_def
proof (intro allI impI)
  fix h st cfg X res h'
  assume a: "footprint h X \<and> VDict st \<in> X \<and> VDict cfg \<in> X \<and> alias_tool h st cfg = (res, h')"
  then have X: "footprint h X" and st: "VDict st \<in> X"
    and call: "alias_tool h st cfg = (res, h')" by simp_all
  show "length (dict_objs h) \<le> length (dict_objs h') \<and> length (list_objs h) \<le> length (list_objs h') \<and>
          (\<forall>v. allocated h v \<and> v \<notin> X \<longrightarrow> contents h' v = contents h v) \<and>
          footprint h' (X \<union> fresh h h') \<and>
          (\<forall>u. res = Inr (Some u) \<longrightarrow> (\<forall>w\<in>snd ` set u. is_ref w \<longrightarrow> w \<in> X \<union> fresh h h'))"
  proof (cases "\<exists>a. dict_get h st ''me'' = VDict a")
    case False
    with call have "h' = h" "res = Inr None"
      by (auto simp: alias_tool_def split: pyval.splits)
    moreover have "fresh h h = {}" by (simp add: fresh_def)
    ultimately show ?thesis using X by simp
  next
    case True
    then obtain a where a: "dict_get h st ''me'' = VDict a" by blast
    with call have h': "h' = dict_update h a [(''seen'', VBool True)]" and res: "res = Inr None"
      by (simp_all add: alias_tool_def)
    from a have "VDict a \<in> succs h (VDict st)"
      by (auto simp: dict_get_def split: option.splits dest: map_of_SomeD intro: rev_image_eqI)
    from footprint_closed [OF X st this] have aX: "VDict a \<in> X" by (simp add: is_ref_def)
    have "\<forall>w\<in>snd ` set [(''seen'', VBool True)]. is_ref w \<longrightarrow> w \<in> X" by (simp add: is_ref_def)
    from footprint_dict_update [OF X aX this] have fp: "footprint h' X" unfolding h' .
    have fr: "fresh h h' = {}" unfolding h' by (simp add: fresh_def)
    have frame: "\<forall>v. allocated h v \<and> v \<notin> X \<longrightarrow> contents h' v = contents h v"
    proof (intro allI impI)
      fix v assume "allocated h v \<and> v \<notin> X"
      with aX have "v \<noteq> VDict a" by auto
      then show "contents h' v = contents h v" unfolding h' by (rule contents_dict_update_other)
    qed
    have len: "length (dict_objs h') = length (dict_objs h)" "length (list_objs h') = length (list_objs h)"
      unfolding h' by (simp_all add: dict_update_def)
    from fp frame fr res len show ?thesis by simp
  qed
qed

lemmas items_defs = items_engine_def items_heap_def items_graph_def plain_edge_def append_tool_def
  get_def quoted_def list_at_def

lemma items_safe: "tools_safe items_graph (tool_registry items_engine)"
  by (auto simp: tools_safe_def items_graph_def items_engine_def get_def tool_safe_append
      split: if_splits)

lemma items_footprint:
  "footprint items_heap {VDict 0, VList 0} \<and>
   (\<forall>w\<in>succs items_heap (VDict 1). is_ref w \<longrightarrow> w \<in> {VDict 0, VList 0}) \<and>
   (\<forall>c n. nodes items_graph c = Some n \<longrightarrow> VDict (node_config n) \<in> {VDict 0, VList 0})"
  by (auto simp: footprint_def allocated_def items_heap_def items_graph_def dict_at_def list_at_def
      split: if_splits)

subsection \<open>The caller's initial state\<close>

text \<open>
  C10, as the code has it. The working state of a run is a new dictionary object with
  exactly the top-level bindings of the caller's \<open>initial_state\<close>; a run with budget
  \<open>0\<close> returns it as it starts. When the tools keep their contract with the memory and
  the caller's dictionary can be reached neither from the values it holds nor from the
  configuration of a node, its top-level bindings are the same after the run as
  before, whatever the run does and however it ends: no tool and no merge adds,
  removes or rebinds a key of it.
\<close>

theorem initial_state_is_copied:
  assumes g: "graphs eng gid = Some g"
  shows "(\<exists>r eng0 h0. run_graph eng h uuid gid initial_state 0 = (Inr r, eng0, h0) \<and>
            state r = length (dict_objs h) \<and> (initial_state < length (dict_objs h) \<longrightarrow> state r \<noteq> initial_state) \<and>
            dict_at h0 (state r) = dict_at h initial_state \<and>
            h0 = fst (dict_copy h initial_state) \<and> state r = snd (dict_copy h initial_state)) \<and>
         (\<forall>X res eng' h'.
            tools_safe g (tool_registry eng) \<and> footprint h X \<and>
            (\<forall>w\<in>succs h (VDict initial_state). is_ref w \<longrightarrow> w \<in> X) \<and>
            (\<forall>c n. nodes g c = Some n \<longrightarrow> VDict (node_config n) \<in> X) \<and>
            initial_state < length (dict_objs h) \<and> VDict initial_state \<notin> X \<and>
            run_graph eng h uuid gid initial_state max_steps = (res, eng', h') \<longrightarrow>
            dict_at h' initial_state = dict_at h initial_state \<and>
            (\<forall>r. res = Inr r \<longrightarrow> state r \<noteq> initial_state))"
proof -
  have start: "\<exists>r eng0 h0. run_graph eng h uuid gid initial_state 0 = (Inr r, eng0, h0) \<and>
            state r = length (dict_objs h) \<and> (initial_state < length (dict_objs h) \<longrightarrow> state r \<noteq> initial_state) \<and>
            dict_at h0 (state r) = dict_at h initial_state \<and>
            h0 = fst (dict_copy h initial_state) \<and> state r = snd (dict_copy h initial_state)"
    by (simp add: run_graph_unfold [OF g] dict_copy_def dict_at_def)
  have kept: "dict_at h' initial_state = dict_at h initial_state \<and>
            (\<forall>r. res = Inr r \<longrightarrow> state r \<noteq> initial_state)"
    if a: "tools_safe g (tool_registry eng) \<and> footprint h X \<and>
            (\<forall>w\<in>succs h (VDict initial_state). is_ref w \<longrightarrow> w \<in> X) \<and>
            (\<forall>c n. nodes g c = Some n \<longrightarrow> VDict (node_config n) \<in> X) \<and>
            initial_state < length (dict_objs h) \<and> VDict initial_state \<notin> X \<and>
            run_graph eng h uuid gid initial_state max_steps = (res, eng', h')"
    for X res eng' h'
  proof -
    let ?h0 = "fst (dict_copy h initial_state)"
    let ?st = "length (dict_objs h)"
    from a have safe: "tools_safe g (tool_registry eng)" and X: "footprint h X"
      and init: "\<forall>w\<in>succs h (VDict initial_state). is_ref w \<longrightarrow> w \<in> X"
      and cfgs: "\<forall>c n. nodes g c = Some n \<longrightarrow> VDict (node_config n) \<in> X"
      and al: "initial_state < length (dict_objs h)" and out: "VDict initial_state \<notin> X"
      and run: "run_graph eng h uuid gid initial_state max_steps = (res, eng', h')"
      by simp_all
    from run_graph_store [OF g run] obtain lres where
      loop: "run_loop g (tool_registry eng) ?st (map int [0..<nat max_steps]) ?h0
               (Some (start_node g)) [] = (lres, h')"
      and st: "\<forall>r. res = Inr r \<longrightarrow> state r = ?st"
      by blast
    have inv: "loop_inv g ?st ?h0 (insert (VDict ?st) X)"
      by (rule loop_inv_dict_copy [OF X init cfgs])
    from al have al0: "allocated ?h0 (VDict initial_state)"
      and c0: "contents ?h0 (VDict initial_state) = contents h (VDict initial_state)"
      by (simp_all add: allocated_def contents_def dict_copy_def dict_at_def nth_append)
    from al out have "VDict initial_state \<notin> insert (VDict ?st) X" by auto
    with run_loop_frame [OF safe inv loop] al0
    have "contents h' (VDict initial_state) = contents ?h0 (VDict initial_state)" by blast
    with c0 have "dict_at h' initial_state = dict_at h initial_state"
      by (simp add: contents_def)
    with st al show ?thesis by auto
  qed
  from start kept show ?thesis by blast
qed

theorem initial_state_is_copied_witness:
  "(\<exists>r eng0 h0. run_graph items_engine items_heap ''run-1'' ''items'' 1 0 = (Inr r, eng0, h0) \<and>
      state r = 2 \<and> dict_at h0 (state r) = [(''items'', VList 0)]) \<and>
   dict_at (snd (snd (run_graph items_engine items_heap ''run-1'' ''items'' 1 2))) 1 =
     [(''items'', VList 0)] \<and>
   list_at (snd (snd (run_graph items_engine items_heap ''run-1'' ''items'' 1 2))) 0 =
     [VInt 1, VInt 1]"
proof -
  have g: "graphs items_engine ''items'' = Some items_graph"
    by (simp add: items_engine_def)
  note inst = initial_state_is_copied [OF g, of items_heap "''run-1''" 1 2]
  have d: "dict_at items_heap 1 = [(''items'', VList 0)]" "length (dict_objs items_heap) = 2"
    by (simp_all add: items_heap_def dict_at_def)
  from inst [THEN conjunct1] d
  have first: "\<exists>r eng0 h0. run_graph items_engine items_heap ''run-1'' ''items'' 1 0 = (Inr r, eng0, h0) \<and>
      state r = 2 \<and> dict_at h0 (state r) = [(''items'', VList 0)]"
    by auto
  obtain res eng' h' where
    run: "run_graph items_engine items_heap ''run-1'' ''items'' 1 2 = (res, eng', h')"
    by (cases "run_graph items_engine items_heap ''run-1'' ''items'' 1 2")
  have "tools_safe items_graph (tool_registry items_engine) \<and>
      footprint items_heap {VDict 0, VList 0} \<and>
      (\<forall>w\<in>succs items_heap (VDict 1). is_ref w \<longrightarrow> w \<in> {VDict 0, VList 0}) \<and>
      (\<forall>c n. nodes items_graph c = Some n \<longrightarrow> VDict (node_config n) \<in> {VDict 0, VList 0}) \<and>
      1 < length (dict_objs items_heap) \<and> VDict 1 \<notin> {VDict 0, VList 0} \<and>
      run_graph items_engine items_heap ''run-1'' ''items'' 1 2 = (res, eng', h')"
    using items_safe items_footprint run d by simp
  with inst [THEN conjunct2] have "dict_at h' 1 = dict_at items_heap 1" by blast
  with run d have second:
    "dict_at (snd (snd (run_graph items_engine items_heap ''run-1'' ''items'' 1 2))) 1 =
       [(''items'', VList 0)]"
    by simp
  have third: "list_at (snd (snd (run_graph items_engine items_heap ''run-1'' ''items'' 1 2))) 0 =
     [VInt 1, VInt 1]"
    by (simp add: items_defs run_defs)
  from first second third show ?thesis by simp
qed

text \<open>
  Without the proviso the property fails. Here the caller's dictionary holds itself,
  so the working state reaches it: the tool keeps to what its arguments reach, and the
  caller's dictionary has a new top-level key after the run.
\<close>

theorem initial_state_alias_counterexample:
  "tool_safe alias_tool \<and>
   dict_at alias_heap 1 = [(''me'', VDict 1)] \<and>
   dict_at (snd (snd (run_graph alias_engine alias_heap ''run-1'' ''alias'' 1 1))) 1 =
     [(''me'', VDict 1), (''seen'', VBool True)]"
  using tool_safe_alias
  by (simp add: alias_engine_def alias_heap_def alias_graph_def alias_tool_def get_def run_defs)

subsection \<open>Snapshots\<close>

text \<open>
  C7. When the tools keep their contract with the memory (the initial state and the
  configurations lying in a footprint of the store), every entry \<open>i\<close> of the log of a
  returned \<open>Run\<close> holds a snapshot that, read in the store the run leaves behind, is the
  value the working state had at the end of step \<open>i\<close>: the value of the state with which
  the same run ends when its budget is \<open>i + 1\<close>. So no later step has changed it. And
  the state of the returned \<open>Run\<close> lies in a footprint \<open>Y\<close> of the final store such that
  no change of the store confined to \<open>Y\<close>, as any mutation through the returned state
  is, changes the value of any snapshot.
\<close>

theorem snapshots_are_deep_copies:
  assumes g: "graphs eng gid = Some g"
    and safe: "tools_safe g (tool_registry eng)"
    and X: "footprint h X"
    and init: "\<forall>w\<in>succs h (VDict initial_state). is_ref w \<longrightarrow> w \<in> X"
    and cfgs: "\<forall>c n. nodes g c = Some n \<longrightarrow> VDict (node_config n) \<in> X"
    and run: "run_graph eng h uuid gid initial_state max_steps = (Inr r, eng', h')"
  shows "(\<forall>i<length (log r). \<exists>ri engi hi.
            run_graph eng h uuid gid initial_state (int i + 1) = (Inr ri, engi, hi) \<and>
            log ri = take (Suc i) (log r) \<and> state ri = state r \<and>
            (\<forall>d. view d h' (VDict (state_snapshot (log r ! i))) = view d hi (VDict (state ri)))) \<and>
         (\<exists>Y. footprint h' Y \<and> VDict (state r) \<in> Y \<and>
            (\<forall>h''. (\<forall>v. allocated h' v \<and> v \<notin> Y \<longrightarrow> contents h'' v = contents h' v) \<longrightarrow>
               (\<forall>i<length (log r). \<forall>d.
                  view d h'' (VDict (state_snapshot (log r ! i))) =
                  view d h' (VDict (state_snapshot (log r ! i))))))"
proof -
  let ?h0 = "fst (dict_copy h initial_state)"
  let ?st = "length (dict_objs h)"
  let ?reg = "tool_registry eng"
  let ?X0 = "insert (VDict ?st) X"
  from run_graph_store [OF g run]
  have loop: "run_loop g ?reg ?st (map int [0..<nat max_steps]) ?h0 (Some (start_node g)) [] =
                (Inr (status r, current_node r, log r), h')"
    and st: "state r = ?st"
    by auto
  have inv: "loop_inv g ?st ?h0 ?X0"
    by (rule loop_inv_dict_copy [OF X init cfgs])
  have first: "\<exists>ri engi hi.
            run_graph eng h uuid gid initial_state (int i + 1) = (Inr ri, engi, hi) \<and>
            log ri = take (Suc i) (log r) \<and> state ri = state r \<and>
            (\<forall>d. view d h' (VDict (state_snapshot (log r ! i))) = view d hi (VDict (state ri)))"
    if i: "i < length (log r)" for i
  proof -
    let ?xs = "map int [0..<Suc i]"
    let ?ys = "map int [Suc i..<nat max_steps]"
    from run_loop_status [OF loop] have "length (log r) \<le> nat max_steps" by simp
    with i have le: "Suc i \<le> nat max_steps" by simp
    then obtain k where k: "nat max_steps = Suc i + k" using le_Suc_ex by blast
    have "[0..<Suc i + k] = [0..<Suc i] @ [Suc i..<Suc i + k]"
      by (rule upt_add_eq_append) simp
    then have split: "map int [0..<nat max_steps] = ?xs @ ?ys"
      unfolding k by (simp only: map_append)
    from loop have full: "run_loop g ?reg ?st (?xs @ ?ys) ?h0 (Some (start_node g)) [] =
        (Inr (status r, current_node r, log r), h')"
      unfolding split .
    have "length ([] :: step_log list) + length ?xs \<le> length (log r)" using i by simp
    from run_loop_prefix [OF full this]
    obtain c l hi where trunc: "run_loop g ?reg ?st ?xs ?h0 (Some (start_node g)) [] =
        (Inr (Failed, c, l), hi)"
      and ll: "length l = Suc i"
      and cont: "run_loop g ?reg ?st ?ys hi c l = (Inr (status r, current_node r, log r), h')"
      by auto
    from ll have l: "l \<noteq> []" by auto
    from run_loop_snapshots [OF safe inv trunc] ll l
    obtain Xi Si where invi: "loop_inv g ?st hi Xi" and Si: "footprint hi Si" "Si \<inter> Xi = {}"
      and snaps: "\<forall>e\<in>set l. VDict (state_snapshot e) \<in> Si"
      and eq: "\<forall>d. view d hi (VDict (state_snapshot (last l))) = view d hi (VDict ?st)"
      by auto
    from run_loop_snapshots [OF safe invi cont]
    obtain more where more: "log r = l @ more" by blast
    from more ll l have nth: "log r ! i = last l"
      by (simp add: nth_append last_conv_nth)
    from more ll have take: "take (Suc i) (log r) = l" by simp
    from l snaps have in_S: "VDict (state_snapshot (last l)) \<in> Si" by simp
    from run_loop_frame [OF safe invi cont]
    have keep: "\<forall>v. allocated hi v \<and> v \<notin> Xi \<longrightarrow> contents h' v = contents hi v" by simp
    have "\<forall>v\<in>Si. contents h' v = contents hi v"
      using keep Si(2) footprint_allocated [OF Si(1)] by blast
    from view_same [OF Si(1) this] in_S
    have "view d h' (VDict (state_snapshot (last l))) = view d hi (VDict (state_snapshot (last l)))" for d
      by blast
    with eq nth have views: "\<forall>d. view d h' (VDict (state_snapshot (log r ! i))) = view d hi (VDict ?st)"
      by simp
    have "nat (int i + 1) = Suc i" by simp
    with trunc have "run_graph eng h uuid gid initial_state (int i + 1) =
        (Inr \<lparr>run_ident = uuid, graph_id = gid, status = Failed, current_node = c,
              state = ?st, log = l\<rparr>,
         eng\<lparr>runs := (runs eng)(uuid \<mapsto>
              \<lparr>run_ident = uuid, graph_id = gid, status = Failed, current_node = c,
               state = ?st, log = l\<rparr>)\<rparr>, hi)"
      by (simp add: run_graph_unfold [OF g])
    with take st views show ?thesis by simp
  qed
  from run_loop_snapshots [OF safe inv loop]
  obtain Y S where Y: "loop_inv g ?st h' Y" and S: "footprint h' S" "S \<inter> Y = {}"
    and snaps: "\<forall>e\<in>set (log r). VDict (state_snapshot e) \<in> S"
    by auto
  have second: "view d h'' (VDict (state_snapshot (log r ! i))) =
                  view d h' (VDict (state_snapshot (log r ! i)))"
    if same: "\<forall>v. allocated h' v \<and> v \<notin> Y \<longrightarrow> contents h'' v = contents h' v"
      and i: "i < length (log r)" for h'' i d
  proof -
    have "\<forall>v\<in>S. contents h'' v = contents h' v"
      using same S(2) footprint_allocated [OF S(1)] by blast
    moreover from i snaps have "VDict (state_snapshot (log r ! i)) \<in> S" by simp
    ultimately show ?thesis using view_same [OF S(1)] by blast
  qed
  from Y st have fy: "footprint h' Y" "VDict (state r) \<in> Y" by (simp_all add: loop_inv_def)
  have "\<exists>Y. footprint h' Y \<and> VDict (state r) \<in> Y \<and>
            (\<forall>h''. (\<forall>v. allocated h' v \<and> v \<notin> Y \<longrightarrow> contents h'' v = contents h' v) \<longrightarrow>
               (\<forall>i<length (log r). \<forall>d.
                  view d h'' (VDict (state_snapshot (log r ! i))) =
                  view d h' (VDict (state_snapshot (log r ! i)))))"
  proof (intro exI conjI allI impI)
    show "footprint h' Y" by (rule fy)
    show "VDict (state r) \<in> Y" by (rule fy)
    fix h'' i d
    assume "\<forall>v. allocated h' v \<and> v \<notin> Y \<longrightarrow> contents h'' v = contents h' v"
      and "i < length (log r)"
    then show "view d h'' (VDict (state_snapshot (log r ! i))) =
                  view d h' (VDict (state_snapshot (log r ! i)))"
      by (rule second)
  qed
  moreover have "\<forall>i<length (log r). \<exists>ri engi hi.
            run_graph eng h uuid gid initial_state (int i + 1) = (Inr ri, engi, hi) \<and>
            log ri = take (Suc i) (log r) \<and> state ri = state r \<and>
            (\<forall>d. view d h' (VDict (state_snapshot (log r ! i))) = view d hi (VDict (state ri)))"
    using first by blast
  ultimately show ?thesis by (rule conjI [rotated])
qed

theorem snapshots_are_deep_copies_witness:
  "view 2 (snd (snd (run_graph items_engine items_heap ''run-1'' ''items'' 1 2))) (VDict 5) =
     TDict [(''items'', TList [TInt 1])] \<and>
   view 2 (snd (snd (run_graph items_engine items_heap ''run-1'' ''items'' 1 2))) (VDict 2) =
     TDict [(''items'', TList [TInt 1, TInt 1])] \<and>
   view 2 ((snd (snd (run_graph items_engine items_heap ''run-1'' ''items'' 1 2)))
            \<lparr>list_objs := (list_objs (snd (snd (run_graph items_engine items_heap ''run-1'' ''items'' 1 2))))
               [0 := []]\<rparr>) (VDict 5) =
     TDict [(''items'', TList [TInt 1])]"
proof -
  have g: "graphs items_engine ''items'' = Some items_graph"
    by (simp add: items_engine_def)
  have "fst (run_graph items_engine items_heap ''run-1'' ''items'' 1 2) =
     Inr \<lparr>run_ident = ''run-1'', graph_id = ''items'', status = Failed, current_node = Some ''a'',
          state = 2, log = [\<lparr>step_index = 0, node_id = ''a'', tool = ''append'', state_snapshot = 5\<rparr>,
                            \<lparr>step_index = 1, node_id = ''a'', tool = ''append'', state_snapshot = 8\<rparr>]\<rparr>"
    by (simp add: items_defs run_defs)
  then obtain r eng' h' where
    run: "run_graph items_engine items_heap ''run-1'' ''items'' 1 2 = (Inr r, eng', h')"
    and r: "state r = 2" "length (log r) = 2" "state_snapshot (log r ! 0) = 5"
    by (cases "run_graph items_engine items_heap ''run-1'' ''items'' 1 2") auto
  from items_footprint have fp: "footprint items_heap {VDict 0, VList 0}"
    and init: "\<forall>w\<in>succs items_heap (VDict 1). is_ref w \<longrightarrow> w \<in> {VDict 0, VList 0}"
    and cfgs: "\<forall>c n. nodes items_graph c = Some n \<longrightarrow> VDict (node_config n) \<in> {VDict 0, VList 0}"
    by blast+
  note inst = snapshots_are_deep_copies [OF g items_safe fp init cfgs run]
  from inst [THEN conjunct1] r
  obtain ri engi hi where
    one: "run_graph items_engine items_heap ''run-1'' ''items'' 1 (int 0 + 1) = (Inr ri, engi, hi)"
    and v: "\<forall>d. view d h' (VDict 5) = view d hi (VDict 2)"
    by force
  have "view 2 (snd (snd (run_graph items_engine items_heap ''run-1'' ''items'' 1 1))) (VDict 2) =
     TDict [(''items'', TList [TInt 1])]"
    by (simp add: items_defs run_defs numeral_2_eq_2)
  with one v have first: "view 2 h' (VDict 5) = TDict [(''items'', TList [TInt 1])]"
    by simp
  have second: "view 2 (snd (snd (run_graph items_engine items_heap ''run-1'' ''items'' 1 2))) (VDict 2) =
     TDict [(''items'', TList [TInt 1, TInt 1])]"
    by (simp add: items_defs run_defs numeral_2_eq_2)
  from inst [THEN conjunct2] r
  obtain Y where Y: "footprint h' Y" "VDict 2 \<in> Y"
    and ind: "\<forall>h''. (\<forall>v. allocated h' v \<and> v \<notin> Y \<longrightarrow> contents h'' v = contents h' v) \<longrightarrow>
               (\<forall>i<2. \<forall>d. view d h'' (VDict (state_snapshot (log r ! i))) =
                  view d h' (VDict (state_snapshot (log r ! i))))"
    by auto
  have "dict_at (snd (snd (run_graph items_engine items_heap ''run-1'' ''items'' 1 2))) 2 =
     [(''items'', VList 0)]"
    by (simp add: items_defs run_defs)
  with run have "VList 0 \<in> succs h' (VDict 2)" by simp
  from footprint_closed [OF Y(1) Y(2) this] have inY: "VList 0 \<in> Y" by (simp add: is_ref_def)
  let ?h'' = "h'\<lparr>list_objs := (list_objs h')[0 := []]\<rparr>"
  have "\<forall>v. allocated h' v \<and> v \<notin> Y \<longrightarrow> contents ?h'' v = contents h' v"
  proof (intro allI impI)
    fix v assume "allocated h' v \<and> v \<notin> Y"
    with inY have "v \<noteq> VList 0" by auto
    then show "contents ?h'' v = contents h' v"
      by (cases v) (auto simp: contents_def list_at_def dict_at_def)
  qed
  with ind have "\<forall>i<2. \<forall>d. view d ?h'' (VDict (state_snapshot (log r ! i))) =
      view d h' (VDict (state_snapshot (log r ! i)))"
    by blast
  then have "view 2 ?h'' (VDict (state_snapshot (log r ! 0))) =
      view 2 h' (VDict (state_snapshot (log r ! 0)))"
    by simp
  with r have "view 2 ?h'' (VDict 5) = view 2 h' (VDict 5)" by simp
  with first have third: "view 2 ?h'' (VDict 5) = TDict [(''items'', TList [TInt 1])]" by simp
  from first second third run show ?thesis by simp
qed

end
